theory Spec2Isabelle
  imports Main
begin

section \<open>String helpers of the Go standard library used by the watch factory\<close>

text \<open>
  Go strings are byte sequences; \<open>string\<close> (a \<open>char list\<close>) models them byte for byte.
  Only the separator \<open>"/"\<close> is ever passed by the code, so separators and cut sets are
  single characters here.
\<close>

abbreviation slash :: char where
  "slash \<equiv> CHR ''/''"

text \<open>\<open>strings.Split(s, sep)\<close>: the pieces of \<open>s\<close> between the occurrences of \<open>sep\<close>;
  the empty string gives the one piece \<open>""\<close>. A character that is not the separator
  goes in front of the first piece of the rest; there is always such a piece.\<close>

fun Split :: "string \<Rightarrow> char \<Rightarrow> string list" where
  "Split [] c = [[]]"
| "Split (x # xs) c =
     (if x = c then [] # Split xs c
      else (case Split xs c of
              t # ts \<Rightarrow> (x # t) # ts
            | [] \<Rightarrow> [[x]]))"

text \<open>\<open>strings.LastIndex(s, "/")\<close>: the index of the last occurrence, or \<open>-1\<close>.\<close>

fun LastIndex :: "string \<Rightarrow> char \<Rightarrow> int" where
  "LastIndex [] c = - 1"
| "LastIndex (x # xs) c =
     (let i = LastIndex xs c
      in if 0 \<le> i then i + 1 else if x = c then 0 else - 1)"

text \<open>\<open>path.Split(p)\<close>: \<open>i := LastIndex(p, "/"); return p[:i+1], p[i+1:]\<close>.\<close>

definition path_Split :: "string \<Rightarrow> string \<times> string" where
  "path_Split p =
     (let i = LastIndex p slash
      in (take (nat (i + 1)) p, drop (nat (i + 1)) p))"

text \<open>\<open>strings.Trim(s, "/")\<close>: all leading and all trailing occurrences removed.\<close>

definition Trim :: "string \<Rightarrow> char \<Rightarrow> string" where
  "Trim s c = rev (dropWhile (\<lambda>x. x = c) (rev (dropWhile (\<lambda>x. x = c) s)))"

section \<open>Run-time failures\<close>

text \<open>
  A Go panic is a value of the model. Indexing a slice out of range panics with the index
  and the length; calling a method on a nil interface and closing a closed channel panic
  too; \<open>DynDialOrDie\<close> of the connection panics when no handle can be obtained.
\<close>

datatype panic =
    IndexOutOfRange nat nat
  | NilDereference
  | CloseOfClosedChannel
  | DialFailed

definition index :: "'a list \<Rightarrow> nat \<Rightarrow> panic + 'a" where
  "index xs i = (if i < length xs then Inr (xs ! i) else Inl (IndexOutOfRange i (length xs)))"

section \<open>Resource identity resolver and path splitter\<close>

record GroupVersionResource =
  Group :: string
  Version :: string
  Resource :: string

text \<open>
  \<open>toGVR\<close>: split on \<open>"/"\<close>, prepend one empty token when there are fewer than three, then
  read the tokens 0, 1 and 2 in this order. Each read is a slice index and can panic.
\<close>

definition toGVR :: "string \<Rightarrow> panic + GroupVersionResource" where
  "toGVR gvr =
     (let tokens = Split gvr slash;
          tokens = (if length tokens < 3 then [] # tokens else tokens)
      in case index tokens 0 of
           Inl p \<Rightarrow> Inl p
         | Inr g \<Rightarrow>
             (case index tokens 1 of
                Inl p \<Rightarrow> Inl p
              | Inr v \<Rightarrow>
                  (case index tokens 2 of
                     Inl p \<Rightarrow> Inl p
                   | Inr r \<Rightarrow> Inr \<lparr>Group = g, Version = v, Resource = r\<rparr>)))"

text \<open>\<open>namespaced\<close>: \<open>ns, po := path.Split(n); return strings.Trim(ns, "/"), po\<close>.\<close>

definition namespaced :: "string \<Rightarrow> string \<times> string" where
  "namespaced n = (let (ns, po) = path_Split n in (Trim ns slash, po))"

section \<open>Errors\<close>

text \<open>
  A Go \<open>error\<close> value is either built here by \<open>fmt.Errorf(format, args...)\<close>, kept as the
  format and its arguments, or it was handed back by a collaborator (the API server's
  transport, an informer's store) and is passed on as it is.
\<close>

datatype error =
    Errorf string "string list"
  | External string

section \<open>Authorization check of the API client\<close>

text \<open>The \<open>ResourceAttributes\<close> of a \<open>SelfSubjectAccessReview\<close>.\<close>

record SelfSubjectAccessReview =
  Namespace :: string
  Verb :: string
  SAR_Group :: string
  SAR_Resource :: string
  Subresource :: string

text \<open>
  What \<open>APIClient\<close> calls outside this code. \<open>AsGVR\<close> and \<open>SubResource\<close> stand for
  \<open>NewGVR(gvr).AsGVR()\<close> and \<open>NewGVR(gvr).SubResource()\<close>. \<open>RESTConfig_ok\<close> and
  \<open>NewForConfig_ok\<close> say whether \<open>config.RESTConfig()\<close> and \<open>kubernetes.NewForConfig\<close>
  return without error. \<open>Create\<close> is the answer of the API server to one review, given
  the reviews it has received before: \<open>Inl e\<close> is a transport error, \<open>Inr b\<close> is
  \<open>resp.Status.Allowed\<close>.
\<close>

record cluster =
  AsGVR :: "string \<Rightarrow> GroupVersionResource"
  SubResource :: "string \<Rightarrow> string"
  RESTConfig_ok :: bool
  NewForConfig_ok :: bool
  Create :: "SelfSubjectAccessReview list \<Rightarrow> SelfSubjectAccessReview \<Rightarrow> string + bool"

text \<open>\<open>client\<close> is true when the field \<open>a.client\<close> holds a handle (is not nil).\<close>

record APIClient =
  client :: bool

text \<open>\<open>log.Panic().Msgf\<close> panics, \<open>log.Fatal().Msgf\<close> exits the process.\<close>

datatype abort = LogPanic | LogFatal

definition makeSAR :: "cluster \<Rightarrow> string \<Rightarrow> string \<Rightarrow> SelfSubjectAccessReview" where
  "makeSAR C ns gvr =
     (let ns = (if ns = ''-'' then '''' else ns);
          res = AsGVR C gvr
      in \<lparr>Namespace = ns, Verb = '''', SAR_Group = Group res,
          SAR_Resource = Resource res, Subresource = SubResource C gvr\<rparr>)"

definition RestConfigOrDie :: "cluster \<Rightarrow> abort + unit" where
  "RestConfigOrDie C = (if RESTConfig_ok C then Inr () else Inl LogPanic)"

definition DialOrDie :: "cluster \<Rightarrow> APIClient \<Rightarrow> abort + APIClient" where
  "DialOrDie C a =
     (if client a then Inr a
      else case RestConfigOrDie C of
             Inl ab \<Rightarrow> Inl ab
           | Inr _ \<Rightarrow> if NewForConfig_ok C then Inr (a\<lparr>client := True\<rparr>) else Inl LogFatal)"

text \<open>
  The loop of \<open>CanI\<close> over the verbs. \<open>sar\<close> is the one review object whose verb is
  overwritten in each round; \<open>sent\<close> is the list of reviews submitted so far.
\<close>

fun CanI_loop ::
  "cluster \<Rightarrow> string \<Rightarrow> string \<Rightarrow> SelfSubjectAccessReview \<Rightarrow> string list \<Rightarrow>
   SelfSubjectAccessReview list \<Rightarrow> (bool \<times> error option) \<times> SelfSubjectAccessReview list"
where
  "CanI_loop C ns gvr sar [] sent = ((True, None), sent)"
| "CanI_loop C ns gvr sar (v # vs) sent =
     (let sar = sar\<lparr>Verb := v\<rparr>;
          resp = Create C sent sar;
          sent = sent @ [sar]
      in case resp of
           Inl err \<Rightarrow> ((False, Some (External err)), sent)
         | Inr allowed \<Rightarrow>
             if \<not> allowed
             then ((False, Some (Errorf ''`%s access denied for user on %q:%s'' [v, ns, gvr])), sent)
             else CanI_loop C ns gvr sar vs sent)"

definition CanI ::
  "cluster \<Rightarrow> APIClient \<Rightarrow> string \<Rightarrow> string \<Rightarrow> string list \<Rightarrow> SelfSubjectAccessReview list \<Rightarrow>
   abort + ((bool \<times> error option) \<times> SelfSubjectAccessReview list) \<times> APIClient"
where
  "CanI C a ns gvr verbs sent =
     (let sar = makeSAR C ns gvr
      in case DialOrDie C a of
           Inl ab \<Rightarrow> Inl ab
         | Inr a \<Rightarrow> Inr (CanI_loop C ns gvr sar verbs sent, a))"

section \<open>The watch factory\<close>

subsection \<open>State and collaborators\<close>

definition allNamespaces :: string where
  "allNamespaces = ''''"

definition clusterScope :: string where
  "clusterScope = ''-''"

text \<open>
  A \<open>Forwarder\<close> is an object with the methods \<open>Path()\<close> and \<open>Stop()\<close>; \<open>ident\<close> tells
  two sessions with the same path apart.
\<close>

datatype Forwarder = Forwarder (ident: nat) (Path: string)

type_synonym selector = string
type_synonym object = string

text \<open>
  An informer is the one that the informer factory with a given reference hands out for a
  resource. A query is one read of an informer's store through its lister.
\<close>

type_synonym informer = "nat \<times> GroupVersionResource"

datatype query =
    Lister_List informer selector
  | Lister_ByNamespace_List informer string selector
  | Lister_Get informer string
  | Lister_ByNamespace_Get informer string string

text \<open>
  The calls that the factory makes on the informer library, on its channel and on a
  session, and its deletions from the map of sessions, in the order in which they
  happen: \<open>NewInformerFactory r ns\<close> is
  \<open>di.NewFilteredDynamicSharedInformerFactory(dial, defaultResync, ns, nil)\<close> returning the
  new object \<open>r\<close>; \<open>FactForResource r g\<close> and \<open>FactStart r ch\<close> are \<open>fact.ForResource(g)\<close>
  and \<open>fact.Start(ch)\<close> on the object \<open>r\<close>; \<open>StoreRead q\<close> is a lister call; \<open>Close c\<close>
  is \<open>close(c)\<close>; \<open>ForwarderStop fwd\<close> is \<open>fwd.Stop()\<close>; \<open>ForwardersDelete p\<close> is
  \<open>delete(f.forwarders, p)\<close>.
\<close>

datatype event =
    NewInformerFactory nat string
  | FactForResource nat GroupVersionResource
  | FactStart nat "nat option"
  | StoreRead query
  | Close nat
  | ForwarderStop Forwarder
  | ForwardersDelete string

text \<open>
  The struct \<open>Factory\<close>: \<open>factories\<close> maps a namespace to the reference of its informer
  factory, \<open>stopChan\<close> is the channel or nil, \<open>forwarders\<close> maps a path to its session.
  The field \<open>client\<close> never changes and is the parameter \<open>E\<close> of the operations. The last
  two fields are not fields of the struct: \<open>trace\<close> records the calls made so far, in
  their order, and \<open>stopped\<close> holds the sessions on which \<open>Stop()\<close> has been called.
\<close>

record Factory =
  factories :: "string \<rightharpoonup> nat"
  stopChan :: "nat option"
  activeNS :: string
  forwarders :: "string \<rightharpoonup> Forwarder"
  trace :: "event list"
  stopped :: "Forwarder set"

text \<open>
  The collaborators: \<open>conn_CanI\<close> and \<open>conn_DynDialOrDie\<close> are the methods of
  \<open>client.Connection\<close> (the latter returns a handle or panics, which may depend on the
  calls made so far); \<open>fact_ForResource r g\<close> says whether the informer factory \<open>r\<close> returns
  an informer that is not nil for \<open>g\<close>; \<open>lister_List\<close> and \<open>lister_Get\<close> are the answers of
  the stores. Results are Go pairs: a value that may be nil (\<open>None\<close>) and an error that may
  be nil.
\<close>

record env =
  conn_CanI :: "string \<Rightarrow> string \<Rightarrow> string list \<Rightarrow> bool \<times> error option"
  conn_DynDialOrDie :: "event list \<Rightarrow> bool"
  fact_ForResource :: "nat \<Rightarrow> GroupVersionResource \<Rightarrow> bool"
  lister_List :: "query \<Rightarrow> object list option \<times> error option"
  lister_Get :: "query \<Rightarrow> object option \<times> error option"

text \<open>
  An operation either returns a value or panics; both leave a state behind. Operations
  that call each other recursively take the depth of the call stack they may use as their
  second argument and give \<open>None\<close> when it is used up.
\<close>

datatype 'a outcome = Return 'a Factory | Panic panic Factory

fun state_of :: "'a outcome \<Rightarrow> Factory" where
  "state_of (Return x f) = f"
| "state_of (Panic p f) = f"

fun and_then ::
  "'a outcome option \<Rightarrow> ('a \<Rightarrow> Factory \<Rightarrow> 'b outcome option) \<Rightarrow> 'b outcome option" where
  "and_then None k = None"
| "and_then (Some (Panic p f)) k = Some (Panic p f)"
| "and_then (Some (Return x f)) k = k x f"

text \<open>\<open>NewFactory\<close>: empty maps and a fresh channel, here the channel 0.\<close>

definition NewFactory :: Factory where
  "NewFactory =
     \<lparr>factories = Map.empty, stopChan = Some 0, activeNS = '''', forwarders = Map.empty,
      trace = [], stopped = {}\<rparr>"

subsection \<open>Ensuring the informer factory of a namespace\<close>

definition isClusterWide :: "Factory \<Rightarrow> bool" where
  "isClusterWide f = (factories f allNamespaces \<noteq> None)"

fun is_new :: "event \<Rightarrow> bool" where
  "is_new (NewInformerFactory r ns) = True"
| "is_new e = False"

text \<open>The reference of the next informer factory: the number of those built so far.\<close>

definition fresh :: "event list \<Rightarrow> nat" where
  "fresh tr = length (filter is_new tr)"

text \<open>
  \<open>ensureFactory\<close>, \<open>preload\<close> and \<open>ForResource\<close> call each other. \<open>ensureFactory\<close> returns
  \<open>f.factories[ns]\<close>, which Go reads as nil (\<open>None\<close>) for a missing key. In
  \<open>fact.ForResource(toGVR(gvr))\<close> the argument is evaluated before the method is called on
  \<open>fact\<close>.
\<close>

fun ensureFactory :: "env \<Rightarrow> nat \<Rightarrow> string \<Rightarrow> Factory \<Rightarrow> nat option outcome option"
  and preload :: "env \<Rightarrow> nat \<Rightarrow> string \<Rightarrow> Factory \<Rightarrow> unit outcome option"
  and ForResource :: "env \<Rightarrow> nat \<Rightarrow> string \<Rightarrow> string \<Rightarrow> Factory \<Rightarrow> informer option outcome option"
where
  "ensureFactory E 0 ns f = None"
| "ensureFactory E (Suc n) ns f =
     (let ns = (if isClusterWide f then allNamespaces else ns)
      in case factories f ns of
           Some fac \<Rightarrow> Some (Return (Some fac) f)
         | None \<Rightarrow>
             if \<not> conn_DynDialOrDie E (trace f) then Some (Panic DialFailed f)
             else
               let r = fresh (trace f);
                   f = f\<lparr>factories := (factories f)(ns \<mapsto> r),
                         trace := trace f @ [NewInformerFactory r ns]\<rparr>
               in and_then (preload E n ns f) (\<lambda>_ f. Some (Return (factories f ns) f)))"
| "preload E 0 ns f = None"
| "preload E (Suc n) ns f =
     and_then (ForResource E n ns ''v1/pods'' f) (\<lambda>_ f.
     and_then (ForResource E n allNamespaces
                 ''apiextensions.k8s.io/v1beta1/customresourcedefinitions'' f) (\<lambda>_ f.
     and_then (ForResource E n clusterScope ''rbac.authorization.k8s.io/v1/clusterroles'' f) (\<lambda>_ f.
     and_then (ForResource E n allNamespaces ''rbac.authorization.k8s.io/v1/roles'' f) (\<lambda>_ f.
     Some (Return () f)))))"
| "ForResource E 0 ns gvr f = None"
| "ForResource E (Suc n) ns gvr f =
     and_then (ensureFactory E n ns f) (\<lambda>fact f.
       case toGVR gvr of
         Inl p \<Rightarrow> Some (Panic p f)
       | Inr g \<Rightarrow>
           (case fact of
              None \<Rightarrow> Some (Panic NilDereference f)
            | Some r \<Rightarrow>
                let f = f\<lparr>trace := trace f @ [FactForResource r g]\<rparr>;
                    inf = (if fact_ForResource E r g then Some (r, g) else None);
                    f = f\<lparr>trace := trace f @ [FactStart r (stopChan f)]\<rparr>
                in Some (Return inf f)))"

subsection \<open>Reading through the factory\<close>

definition store_List :: "env \<Rightarrow> query \<Rightarrow> Factory \<Rightarrow> (object list option \<times> error option) outcome option" where
  "store_List E q f = Some (Return (lister_List E q) (f\<lparr>trace := trace f @ [StoreRead q]\<rparr>))"

definition store_Get :: "env \<Rightarrow> query \<Rightarrow> Factory \<Rightarrow> (object option \<times> error option) outcome option" where
  "store_Get E q f = Some (Return (lister_Get E q) (f\<lparr>trace := trace f @ [StoreRead q]\<rparr>))"

definition List ::
  "env \<Rightarrow> nat \<Rightarrow> string \<Rightarrow> string \<Rightarrow> selector \<Rightarrow> Factory \<Rightarrow>
   (object list option \<times> error option) outcome option" where
  "List E n gvr ns sel f =
     (let (auth, err) = conn_CanI E ns gvr [''list'']
      in if err \<noteq> None then Some (Return (None, err) f)
         else if \<not> auth
         then Some (Return (None, Some (Errorf ''User has insufficient access to list %s'' [gvr])) f)
         else and_then (ForResource E n ns gvr f) (\<lambda>inf f.
                case inf of
                  None \<Rightarrow> Some (Return (None, Some (Errorf ''No resource for GVR %s'' [gvr])) f)
                | Some i \<Rightarrow>
                    if ns = clusterScope then store_List E (Lister_List i sel) f
                    else store_List E (Lister_ByNamespace_List i ns sel) f))"

definition Get ::
  "env \<Rightarrow> nat \<Rightarrow> string \<Rightarrow> string \<Rightarrow> selector \<Rightarrow> Factory \<Rightarrow>
   (object option \<times> error option) outcome option" where
  "Get E n gvr path sel f =
     (let (ns, nm) = namespaced path;
          (auth, err) = conn_CanI E ns gvr [''get'']
      in if err \<noteq> None then Some (Return (None, err) f)
         else if \<not> auth
         then Some (Return (None, Some (Errorf ''User has insufficient access to get %s'' [gvr])) f)
         else and_then (ForResource E n ns gvr f) (\<lambda>inf f.
                case inf of
                  None \<Rightarrow> Some (Return (None, Some (Errorf ''No resource for GVR %s'' [gvr])) f)
                | Some i \<Rightarrow>
                    if ns = clusterScope then store_Get E (Lister_Get i nm) f
                    else store_Get E (Lister_ByNamespace_Get i ns nm) f))"

subsection \<open>Active namespace, forwarders and termination\<close>

definition SetActive :: "env \<Rightarrow> nat \<Rightarrow> string \<Rightarrow> Factory \<Rightarrow> unit outcome option" where
  "SetActive E n ns f =
     (if \<not> isClusterWide f
      then and_then (ensureFactory E n ns f) (\<lambda>_ f. Some (Return () (f\<lparr>activeNS := ns\<rparr>)))
      else Some (Return () (f\<lparr>activeNS := ns\<rparr>)))"

text \<open>\<open>fwd.Stop()\<close>: the session is stopped from now on, and the call is recorded.\<close>

definition Stop :: "Forwarder \<Rightarrow> Factory \<Rightarrow> Factory" where
  "Stop fwd f = f\<lparr>stopped := insert fwd (stopped f), trace := trace f @ [ForwarderStop fwd]\<rparr>"

text \<open>\<open>delete(f.forwarders, p)\<close>: the entry is removed, and the deletion is recorded.\<close>

definition delete_forwarders :: "string \<Rightarrow> Factory \<Rightarrow> Factory" where
  "delete_forwarders p f =
     f\<lparr>forwarders := (forwarders f)(p := None), trace := trace f @ [ForwardersDelete p]\<rparr>"

definition DeleteForwarder :: "string \<Rightarrow> Factory \<Rightarrow> Factory" where
  "DeleteForwarder p f =
     (case forwarders f p of
        Some fwd \<Rightarrow> (let f = Stop fwd f in delete_forwarders p f)
      | None \<Rightarrow> f)"

definition RegisterForwarder :: "Forwarder \<Rightarrow> Factory \<Rightarrow> Factory" where
  "RegisterForwarder pf f = f\<lparr>forwarders := (forwarders f)(Path pf \<mapsto> pf)\<rparr>"

text \<open>\<open>ForwarderFor\<close>: \<open>fwd, ok := f.forwarders[path]\<close>.\<close>

definition ForwarderFor :: "string \<Rightarrow> Factory \<Rightarrow> Forwarder option \<times> bool" where
  "ForwarderFor p f = (forwarders f p, forwarders f p \<noteq> None)"

text \<open>
  Modelled from the spec: \<open>Forwarders.DeleteAll\<close> is not among the sources. The spec
  (4.5, \<open>terminateAll()\<close>) says: stops and removes every session; safe on an empty
  registry. The order in which it visits the sessions is not given, so its calls are
  recorded in \<open>stopped\<close> only and not in the trace.
\<close>

definition DeleteAll :: "Factory \<Rightarrow> Factory" where
  "DeleteAll f = f\<lparr>stopped := stopped f \<union> ran (forwarders f), forwarders := Map.empty\<rparr>"

text \<open>\<open>close(c)\<close> panics on a channel that is closed already.\<close>

definition close :: "nat \<Rightarrow> Factory \<Rightarrow> unit outcome" where
  "close c f =
     (if Close c \<in> set (trace f) then Panic CloseOfClosedChannel f
      else Return () (f\<lparr>trace := trace f @ [Close c]\<rparr>))"

text \<open>
  \<open>Terminate\<close>: the guarded close, then the loop that deletes every key of \<open>factories\<close>,
  then \<open>forwarders.DeleteAll()\<close>.
\<close>

definition Terminate :: "Factory \<Rightarrow> unit outcome" where
  "Terminate f =
     (case (case stopChan f of
              Some c \<Rightarrow>
                (case close c f of
                   Panic p f \<Rightarrow> Panic p f
                 | Return _ f \<Rightarrow> Return () (f\<lparr>stopChan := None\<rparr>))
            | None \<Rightarrow> Return () f) of
        Panic p f \<Rightarrow> Panic p f
      | Return _ f \<Rightarrow> Return () (DeleteAll (f\<lparr>factories := Map.empty\<rparr>)))"

section \<open>Example collaborators and states\<close>

text \<open>
  An API server that allows every verb but \<open>list\<close> and whose transport fails on
  \<open>watch\<close>; the resource of every review is \<open>pods\<close>.
\<close>

definition example_cluster :: cluster where
  "example_cluster =
     \<lparr>AsGVR = (\<lambda>gvr. \<lparr>Group = '''', Version = ''v1'', Resource = ''pods''\<rparr>),
      SubResource = (\<lambda>gvr. ''''),
      RESTConfig_ok = True,
      NewForConfig_ok = True,
      Create = (\<lambda>sent sar. if Verb sar = ''list'' then Inr False
                          else if Verb sar = ''watch'' then Inl ''timeout''
                          else Inr True)\<rparr>"

definition pods_review :: "string \<Rightarrow> SelfSubjectAccessReview" where
  "pods_review v =
     \<lparr>Namespace = ''default'', Verb = v, SAR_Group = '''', SAR_Resource = ''pods'',
      Subresource = ''''\<rparr>"

text \<open>
  Three authorization gates: one that allows, a stub that answers not-allowed without an
  error, and one whose check fails in the transport.
\<close>

definition allow :: "string \<Rightarrow> string \<Rightarrow> string list \<Rightarrow> bool \<times> error option" where
  "allow ns gvr verbs = (True, None)"

definition deny :: "string \<Rightarrow> string \<Rightarrow> string list \<Rightarrow> bool \<times> error option" where
  "deny ns gvr verbs = (False, None)"

definition transport_down :: "string \<Rightarrow> string \<Rightarrow> string list \<Rightarrow> bool \<times> error option" where
  "transport_down ns gvr verbs = (False, Some (External ''timeout''))"

text \<open>
  Collaborators around a gate: the dial handle is always there, every resource has an
  informer, and the stores hold two pods.
\<close>

definition example_env :: "(string \<Rightarrow> string \<Rightarrow> string list \<Rightarrow> bool \<times> error option) \<Rightarrow> env" where
  "example_env gate =
     \<lparr>conn_CanI = gate,
      conn_DynDialOrDie = (\<lambda>tr. True),
      fact_ForResource = (\<lambda>r g. True),
      lister_List = (\<lambda>q. (Some [''pod-a'', ''pod-b''], None)),
      lister_Get = (\<lambda>q. (Some ''pod-a'', None))\<rparr>"

text \<open>A factory that holds the informer factory 0 for all namespaces and nothing else.\<close>

definition cluster_wide_factory :: Factory where
  "cluster_wide_factory =
     NewFactory\<lparr>factories := [allNamespaces \<mapsto> 0],
                trace := [NewInformerFactory 0 allNamespaces]\<rparr>"

definition pods :: GroupVersionResource where
  "pods = \<lparr>Group = '''', Version = ''v1'', Resource = ''pods''\<rparr>"

text \<open>Two sessions for the same container and one for another.\<close>

definition fwd1 :: Forwarder where
  "fwd1 = Forwarder 1 ''default/web/nginx''"

definition fwd2 :: Forwarder where
  "fwd2 = Forwarder 2 ''default/web/nginx''"

definition fwd3 :: Forwarder where
  "fwd3 = Forwarder 3 ''default/db/postgres''"

text \<open>The other three resources of the warm-up.\<close>

definition crds :: GroupVersionResource where
  "crds = \<lparr>Group = ''apiextensions.k8s.io'', Version = ''v1beta1'',
           Resource = ''customresourcedefinitions''\<rparr>"

definition clusterroles :: GroupVersionResource where
  "clusterroles = \<lparr>Group = ''rbac.authorization.k8s.io'', Version = ''v1'',
           Resource = ''clusterroles''\<rparr>"

definition roles :: GroupVersionResource where
  "roles = \<lparr>Group = ''rbac.authorization.k8s.io'', Version = ''v1'', Resource = ''roles''\<rparr>"

text \<open>The two calls that \<open>ForResource\<close> makes on the informer factory \<open>r\<close> for \<open>g\<close> while
  the channel 0 is in place.\<close>

definition warm :: "nat \<Rightarrow> GroupVersionResource \<Rightarrow> event list" where
  "warm r g = [FactForResource r g, FactStart r (Some 0)]"

text \<open>
  The state of a new factory when \<open>ensureFactory\<close> for the namespace \<open>default\<close> has built
  the informer factory 0 and calls the warm-up.
\<close>

definition during_first_warm_up :: Factory where
  "during_first_warm_up =
     NewFactory\<lparr>factories := [''default'' \<mapsto> 0],
                trace := [NewInformerFactory 0 ''default'']\<rparr>"

text \<open>
  The state of a new factory after \<open>ensureFactory\<close> for the namespace \<open>default\<close>: the
  informer factory 0 of \<open>default\<close> and, built during its warm-up, the informer factory 1 of
  all namespaces, which serves the rest of that warm-up and its own.
\<close>

definition after_first_ensure :: Factory where
  "after_first_ensure =
     NewFactory\<lparr>factories := [''default'' \<mapsto> 0, allNamespaces \<mapsto> 1],
                trace :=
                  NewInformerFactory 0 ''default'' # warm 0 pods @
                  NewInformerFactory 1 allNamespaces # warm 1 pods @ warm 1 crds @
                  warm 1 clusterroles @ warm 1 roles @
                  warm 1 crds @ warm 1 clusterroles @ warm 1 roles\<rparr>"

section \<open>Properties of the string helpers\<close>

lemma LastIndex_ge: "- 1 \<le> LastIndex s c"
  by (induction s) (auto simp: Let_def)

lemma LastIndex_absent: "c \<notin> set s \<Longrightarrow> LastIndex s c = - 1"
  by (induction s) (auto simp: Let_def)

lemma LastIndex_final: "c \<notin> set b \<Longrightarrow> LastIndex (a @ c # b) c = int (length a)"
  by (induction a) (auto simp: Let_def LastIndex_absent)

lemma path_Split_absent: "slash \<notin> set n \<Longrightarrow> path_Split n = ([], n)"
  by (simp add: path_Split_def LastIndex_absent)

lemma path_Split_final: "slash \<notin> set b \<Longrightarrow> path_Split (a @ slash # b) = (a @ [slash], b)"
proof -
  assume b: "slash \<notin> set b"
  have n: "nat (int (length a) + 1) = Suc (length a)" by simp
  show ?thesis
    using b by (simp add: path_Split_def LastIndex_final Let_def n)
qed

lemma Trim_snoc: "Trim (a @ [c]) c = Trim a c"
proof (cases "\<forall>x\<in>set a. x = c")
  case True
  then have d: "dropWhile (\<lambda>x. x = c) a = []" by simp
  have e: "dropWhile (\<lambda>x. x = c) (a @ [c]) = []"
    unfolding dropWhile_eq_Nil_conv using True by simp
  show ?thesis unfolding Trim_def d e by simp
next
  case False
  then have e: "dropWhile (\<lambda>x. x = c) (a @ [c]) = dropWhile (\<lambda>x. x = c) a @ [c]"
    by (simp add: dropWhile_append)
  show ?thesis unfolding Trim_def e by simp
qed

lemma dropWhile_eq_replicate:
  "\<exists>k. xs = replicate k c @ dropWhile (\<lambda>x. x = c) xs"
proof (induction xs)
  case Nil
  then show ?case by simp
next
  case (Cons x xs)
  then obtain k where k: "xs = replicate k c @ dropWhile (\<lambda>x. x = c) xs" by blast
  show ?case
  proof (cases "x = c")
    case True
    have "x # xs = replicate (Suc k) c @ dropWhile (\<lambda>x. x = c) (x # xs)"
      using True k by simp
    then show ?thesis by blast
  next
    case False
    have "x # xs = replicate 0 c @ dropWhile (\<lambda>x. x = c) (x # xs)"
      using False by simp
    then show ?thesis by blast
  qed
qed

lemma Trim_decompose:
  "\<exists>k l. a = replicate k c @ Trim a c @ replicate l c"
proof -
  define d where "d = dropWhile (\<lambda>x. x = c) a"
  define e where "e = dropWhile (\<lambda>x. x = c) (rev d)"
  have t: "Trim a c = rev e" unfolding Trim_def d_def e_def ..
  obtain k where k: "a = replicate k c @ d"
    using dropWhile_eq_replicate [of a c] unfolding d_def by blast
  obtain l where l: "rev d = replicate l c @ e"
    using dropWhile_eq_replicate [of "rev d" c] unfolding e_def by blast
  have "rev (rev d) = rev (replicate l c @ e)" by (simp only: l)
  then have dl: "d = rev e @ replicate l c" by simp
  have "replicate k c @ d = replicate k c @ rev e @ replicate l c"
    by (simp only: dl)
  with k have "a = replicate k c @ rev e @ replicate l c"
    by (rule trans)
  then have "a = replicate k c @ Trim a c @ replicate l c"
    unfolding t .
  then show ?thesis by blast
qed

lemma last_dropWhile_nonempty:
  "dropWhile P xs \<noteq> [] \<Longrightarrow> last (dropWhile P xs) = last xs"
proof -
  assume ne: "dropWhile P xs \<noteq> []"
  have "last (takeWhile P xs @ dropWhile P xs) = last (dropWhile P xs)"
    using ne by (rule last_appendR)
  then show ?thesis by simp
qed

lemma Trim_ends:
  assumes ne: "Trim a c \<noteq> []"
  shows "hd (Trim a c) \<noteq> c \<and> last (Trim a c) \<noteq> c"
proof -
  define d where "d = dropWhile (\<lambda>x. x = c) a"
  define e where "e = dropWhile (\<lambda>x. x = c) (rev d)"
  have t: "Trim a c = rev e" unfolding Trim_def d_def e_def ..
  have e: "e \<noteq> []" using ne unfolding t by simp
  have he: "hd e \<noteq> c"
    using e hd_dropWhile [of "\<lambda>x. x = c" "rev d"] unfolding e_def by blast
  have d: "d \<noteq> []"
  proof
    assume "d = []"
    then have "e = []" unfolding e_def by simp
    with e show False by blast
  qed
  have hd: "hd d \<noteq> c"
    using d hd_dropWhile [of "\<lambda>x. x = c" a] unfolding d_def by blast
  have "last e = last (rev d)"
    using e last_dropWhile_nonempty [of "\<lambda>x. x = c" "rev d"] unfolding e_def by blast
  also have "\<dots> = hd d" by (simp only: last_rev)
  finally have le: "last e = hd d" .
  have "hd (rev e) = last e" by (simp only: hd_rev)
  moreover have "last (rev e) = hd e" by (simp only: last_rev)
  ultimately show ?thesis unfolding t using he hd le by simp
qed

lemma Split_nonempty: "Split s c \<noteq> []"
  by (induction s) (auto split: list.splits)

lemma length_Split: "length (Split s c) = Suc (count_list s c)"
proof (induction s)
  case Nil
  then show ?case by simp
next
  case (Cons x xs)
  then show ?case
    using Split_nonempty [of xs c] by (cases "Split xs c") auto
qed

lemma toGVR_no_separator:
  assumes "slash \<notin> set gvr"
  shows "toGVR gvr = Inl (IndexOutOfRange 2 2)"
proof -
  have "count_list gvr slash = 0" using assms by (simp add: count_list_0_iff)
  then have "length (Split gvr slash) = 1" by (simp add: length_Split)
  then show ?thesis by (simp add: toGVR_def index_def)
qed

lemma toGVR_separator:
  assumes "slash \<in> set gvr"
  shows "\<exists>g. toGVR gvr = Inr g"
proof -
  have "count_list gvr slash \<noteq> 0" using assms by (simp add: count_list_0_iff)
  then have "2 \<le> length (Split gvr slash)" by (simp add: length_Split)
  then show ?thesis by (auto simp: toGVR_def index_def Let_def)
qed

lemma namespaced_absent: "slash \<notin> set n \<Longrightarrow> namespaced n = ([], n)"
  by (simp add: namespaced_def path_Split_absent Trim_def)

lemma namespaced_final:
  "slash \<notin> set b \<Longrightarrow> namespaced (a @ slash # b) = (Trim a slash, b)"
  by (simp add: namespaced_def path_Split_final Trim_snoc)

section \<open>Resource identity resolver\<close>

text \<open>
  Claim C3 says that the resolver returns a (group, version, resource) triple for every
  input string, also for inputs with zero or one separator. The code prepends a single
  empty token, so an input without any separator has two tokens when token 2 is read:
  \<open>toGVR\<close> panics with an index out of range on \<open>"pods"\<close> and on the empty string.
\<close>

theorem toGVR_panics_without_separator:
  "toGVR ''pods'' = Inl (IndexOutOfRange 2 2) \<and> toGVR '''' = Inl (IndexOutOfRange 2 2)"
  by (simp add: toGVR_def index_def)

section \<open>Path splitter\<close>

text \<open>
  Claim C9: for every composite string, the name is everything after the final separator
  and the namespace is everything before it with the separators trimmed from both ends:
  the part before the final separator is the namespace between a run of leading and a run
  of trailing separators, and the namespace neither starts nor ends with a separator. A
  string with no separator gives the empty namespace and the whole string as name. In
  particular \<open>"default/pod-abc"\<close> gives \<open>("default", "pod-abc")\<close> and \<open>"pod-abc"\<close> gives
  \<open>("", "pod-abc")\<close>.
\<close>

theorem namespaced_splits_at_final_separator:
  "(slash \<notin> set n \<longrightarrow> namespaced n = ('''', n)) \<and>
   (slash \<notin> set b \<longrightarrow>
      snd (namespaced (a @ slash # b)) = b \<and>
      (\<exists>k l. a = replicate k slash @ fst (namespaced (a @ slash # b)) @ replicate l slash) \<and>
      (fst (namespaced (a @ slash # b)) \<noteq> '''' \<longrightarrow>
         hd (fst (namespaced (a @ slash # b))) \<noteq> slash \<and>
         last (fst (namespaced (a @ slash # b))) \<noteq> slash)) \<and>
   namespaced ''default/pod-abc'' = (''default'', ''pod-abc'') \<and>
   namespaced ''pod-abc'' = ('''', ''pod-abc'')"
proof (intro conjI impI)
  assume "slash \<notin> set n"
  then show "namespaced n = ('''', n)" by (rule namespaced_absent)
next
  assume b: "slash \<notin> set b"
  show "snd (namespaced (a @ slash # b)) = b"
    by (simp add: namespaced_final [OF b])
  show "\<exists>k l. a = replicate k slash @ fst (namespaced (a @ slash # b)) @ replicate l slash"
    using Trim_decompose [of a slash] by (simp add: namespaced_final [OF b])
  assume "fst (namespaced (a @ slash # b)) \<noteq> ''''"
  then have ne: "Trim a slash \<noteq> []" by (simp add: namespaced_final [OF b])
  show "hd (fst (namespaced (a @ slash # b))) \<noteq> slash"
    using Trim_ends [OF ne] by (simp add: namespaced_final [OF b])
  show "last (fst (namespaced (a @ slash # b))) \<noteq> slash"
    using Trim_ends [OF ne] by (simp add: namespaced_final [OF b])
next
  show "namespaced ''default/pod-abc'' = (''default'', ''pod-abc'')"
    by (simp add: namespaced_def path_Split_def Trim_def)
next
  show "namespaced ''pod-abc'' = ('''', ''pod-abc'')"
    by (simp add: namespaced_def path_Split_def Trim_def)
qed

theorem namespaced_splits_at_final_separator_witness:
  "namespaced ''pod-abc'' = ('''', ''pod-abc'') \<and>
   namespaced ''/kube-system//coredns'' = (''kube-system'', ''coredns'') \<and>
   (\<exists>k l. ''/kube-system/'' =
      replicate k slash @ fst (namespaced ''/kube-system//coredns'') @ replicate l slash) \<and>
   hd (fst (namespaced ''/kube-system//coredns'')) \<noteq> slash \<and>
   last (fst (namespaced ''/kube-system//coredns'')) \<noteq> slash"
proof -
  have n: "slash \<notin> set ''pod-abc''" by simp
  have b: "slash \<notin> set ''coredns''" by simp
  have e: "namespaced ''/kube-system//coredns'' = (''kube-system'', ''coredns'')"
    by (simp add: namespaced_def path_Split_def Trim_def)
  then have ne: "fst (namespaced (''/kube-system/'' @ slash # ''coredns'')) \<noteq> ''''"
    by simp
  note t = namespaced_splits_at_final_separator [of "''pod-abc''" "''coredns''" "''/kube-system/''"]
  have 1: "namespaced ''pod-abc'' = ('''', ''pod-abc'')" using t n by blast
  have 2: "\<exists>k l. ''/kube-system/'' =
      replicate k slash @ fst (namespaced (''/kube-system/'' @ slash # ''coredns'')) @ replicate l slash"
    using t b by blast
  have 3: "hd (fst (namespaced (''/kube-system/'' @ slash # ''coredns''))) \<noteq> slash \<and>
      last (fst (namespaced (''/kube-system/'' @ slash # ''coredns''))) \<noteq> slash"
    using t b ne by blast
  have a: "''/kube-system/'' @ slash # ''coredns'' = ''/kube-system//coredns''" by simp
  show ?thesis using 1 2 3 e unfolding a by blast
qed

section \<open>Authorization check\<close>

lemma CanI_loop_Verb_irrelevant:
  "CanI_loop C ns gvr (sar\<lparr>Verb := u\<rparr>) vs sent = CanI_loop C ns gvr sar vs sent"
  by (cases vs) simp_all

lemma CanI_loop_pass_append:
  "CanI_loop C ns gvr sar pre sent = ((True, None), sent1) \<Longrightarrow>
   sent1 = sent @ map (\<lambda>u. sar\<lparr>Verb := u\<rparr>) pre \<and>
   CanI_loop C ns gvr sar (pre @ vs) sent = CanI_loop C ns gvr sar vs sent1"
proof (induction pre arbitrary: sent)
  case Nil
  then show ?case by simp
next
  case (Cons p pre)
  let ?sar = "sar\<lparr>Verb := p\<rparr>"
  from Cons.prems have ok: "Create C sent ?sar = Inr True"
    by (auto simp: Let_def split: sum.splits if_splits)
  with Cons.prems have "CanI_loop C ns gvr ?sar pre (sent @ [?sar]) = ((True, None), sent1)"
    by (simp add: Let_def)
  then have rest: "CanI_loop C ns gvr sar pre (sent @ [?sar]) = ((True, None), sent1)"
    by (simp only: CanI_loop_Verb_irrelevant)
  from Cons.IH [OF rest] have
    s: "sent1 = (sent @ [?sar]) @ map (\<lambda>u. sar\<lparr>Verb := u\<rparr>) pre" and
    c: "CanI_loop C ns gvr sar (pre @ vs) (sent @ [?sar]) = CanI_loop C ns gvr sar vs sent1"
    by blast+
  have "CanI_loop C ns gvr sar ((p # pre) @ vs) sent =
        CanI_loop C ns gvr ?sar (pre @ vs) (sent @ [?sar])"
    using ok by (simp add: Let_def)
  also have "\<dots> = CanI_loop C ns gvr sar (pre @ vs) (sent @ [?sar])"
    by (simp only: CanI_loop_Verb_irrelevant)
  finally show ?case using s c by simp
qed

lemma CanI_loop_refused:
  "Create C sent (sar\<lparr>Verb := v\<rparr>) = r \<Longrightarrow> r \<noteq> Inr True \<Longrightarrow>
   CanI_loop C ns gvr sar (v # rest) sent =
     ((False, Some (case r of
                      Inl e \<Rightarrow> External e
                    | Inr _ \<Rightarrow> Errorf ''`%s access denied for user on %q:%s'' [v, ns, gvr])),
      sent @ [sar\<lparr>Verb := v\<rparr>])"
  by (auto simp: Let_def split: sum.splits)

text \<open>
  Claim C4: the verbs are examined in the order of the list, and the check stops at the
  first verb that is denied or whose remote check fails. When the verbs \<open>pre\<close> before \<open>v\<close>
  all pass and the review of \<open>v\<close> is answered by \<open>r\<close>, a denial or a transport error, then
  for every list \<open>rest\<close> of remaining verbs the reviews submitted are exactly those of
  \<open>pre\<close> and then of \<open>v\<close>, in this order, and none of \<open>rest\<close>. The answer is not-allowed
  with an error: a denial is reported by the error formatted here from the verb, the
  namespace and the resource, a transport failure by the error of the transport as it
  is, and these two are never the same error.
\<close>

theorem CanI_stops_at_first_refusal:
  assumes pre: "CanI C a ns gvr pre sent = Inr (((True, None), sent1), a')"
    and r: "Create C sent1 ((makeSAR C ns gvr)\<lparr>Verb := v\<rparr>) = r"
    and refused: "r \<noteq> Inr True"
  shows "CanI C a ns gvr (pre @ v # rest) sent =
           Inr (((False,
                  Some (case r of
                          Inl e \<Rightarrow> External e
                        | Inr _ \<Rightarrow> Errorf ''`%s access denied for user on %q:%s'' [v, ns, gvr])),
                 sent @ map (\<lambda>u. (makeSAR C ns gvr)\<lparr>Verb := u\<rparr>) (pre @ [v])),
                a') \<and>
         External e \<noteq> Errorf ''`%s access denied for user on %q:%s'' [v, ns, gvr]"
proof -
  let ?sar = "makeSAR C ns gvr"
  from pre have dial: "DialOrDie C a = Inr a'"
    and loop: "CanI_loop C ns gvr ?sar pre sent = ((True, None), sent1)"
    by (auto simp: CanI_def Let_def split: sum.splits)
  from CanI_loop_pass_append [OF loop, of "v # rest"] have
    s: "sent1 = sent @ map (\<lambda>u. ?sar\<lparr>Verb := u\<rparr>) pre" and
    c: "CanI_loop C ns gvr ?sar (pre @ v # rest) sent = CanI_loop C ns gvr ?sar (v # rest) sent1"
    by blast+
  have "CanI_loop C ns gvr ?sar (v # rest) sent1 =
          ((False, Some (case r of
                      Inl e \<Rightarrow> External e
                    | Inr _ \<Rightarrow> Errorf ''`%s access denied for user on %q:%s'' [v, ns, gvr])),
           sent1 @ [?sar\<lparr>Verb := v\<rparr>])"
    using r refused by (rule CanI_loop_refused)
  with c s dial have "CanI C a ns gvr (pre @ v # rest) sent =
           Inr (((False,
                  Some (case r of
                          Inl e \<Rightarrow> External e
                        | Inr _ \<Rightarrow> Errorf ''`%s access denied for user on %q:%s'' [v, ns, gvr])),
                 sent @ map (\<lambda>u. (makeSAR C ns gvr)\<lparr>Verb := u\<rparr>) (pre @ [v])),
                a')"
    by (simp add: CanI_def Let_def)
  moreover have "External e \<noteq> Errorf ''`%s access denied for user on %q:%s'' [v, ns, gvr]"
    by simp
  ultimately show ?thesis by (rule conjI)
qed

theorem CanI_stops_at_first_refusal_witness:
  "CanI example_cluster \<lparr>client = False\<rparr> ''default'' ''v1/pods'' [''get'', ''list'', ''watch''] [] =
     Inr (((False, Some (Errorf ''`%s access denied for user on %q:%s''
                           [''list'', ''default'', ''v1/pods''])),
           [pods_review ''get'', pods_review ''list'']),
          \<lparr>client = True\<rparr>) \<and>
   CanI example_cluster \<lparr>client = False\<rparr> ''default'' ''v1/pods'' [''get'', ''watch'', ''list''] [] =
     Inr (((False, Some (External ''timeout'')),
           [pods_review ''get'', pods_review ''watch'']),
          \<lparr>client = True\<rparr>)"
proof -
  have pre: "CanI example_cluster \<lparr>client = False\<rparr> ''default'' ''v1/pods'' [''get''] [] =
      Inr (((True, None), [pods_review ''get'']), \<lparr>client = True\<rparr>)"
    by (simp add: CanI_def DialOrDie_def RestConfigOrDie_def makeSAR_def example_cluster_def
        pods_review_def)
  have l: "Create example_cluster [pods_review ''get'']
             ((makeSAR example_cluster ''default'' ''v1/pods'')\<lparr>Verb := ''list''\<rparr>) = Inr False"
    by (simp add: example_cluster_def)
  have w: "Create example_cluster [pods_review ''get'']
             ((makeSAR example_cluster ''default'' ''v1/pods'')\<lparr>Verb := ''watch''\<rparr>) = Inl ''timeout''"
    by (simp add: example_cluster_def)
  have m: "\<And>u. (makeSAR example_cluster ''default'' ''v1/pods'')\<lparr>Verb := u\<rparr> = pods_review u"
    by (simp add: makeSAR_def example_cluster_def pods_review_def)
  from CanI_stops_at_first_refusal [OF pre l, of "[''watch'']", THEN conjunct1]
  have 1: "CanI example_cluster \<lparr>client = False\<rparr> ''default'' ''v1/pods'' [''get'', ''list'', ''watch''] [] =
     Inr (((False, Some (Errorf ''`%s access denied for user on %q:%s''
                           [''list'', ''default'', ''v1/pods''])),
           [pods_review ''get'', pods_review ''list'']),
          \<lparr>client = True\<rparr>)"
    by (simp add: m)
  from CanI_stops_at_first_refusal [OF pre w, of "[''list'']", THEN conjunct1]
  have 2: "CanI example_cluster \<lparr>client = False\<rparr> ''default'' ''v1/pods'' [''get'', ''watch'', ''list''] [] =
     Inr (((False, Some (External ''timeout'')),
           [pods_review ''get'', pods_review ''watch'']),
          \<lparr>client = True\<rparr>)"
    by (simp add: m)
  from 1 2 show ?thesis by (rule conjI)
qed

section \<open>Reads are gated by the authorization check\<close>

text \<open>
  Claim C1: for every resource identifier, scope and selector, if the gate denies the verb
  (\<open>list\<close> for \<open>List\<close>, \<open>get\<close> for \<open>Get\<close>) or the check itself fails, the operation returns
  a nil result together with an error and leaves the whole state as it was: no informer
  factory is built or started and no store is read, whatever call depth is available. The
  error is the one of the check if it has one, and the insufficient-access error otherwise.
\<close>

theorem List_Get_refused_touch_no_cache:
  "(snd (conn_CanI E ns gvr [''list'']) \<noteq> None \<or> \<not> fst (conn_CanI E ns gvr [''list'']) \<longrightarrow>
      List E n gvr ns sel f =
        Some (Return (None,
                Some (case snd (conn_CanI E ns gvr [''list'']) of
                        Some e \<Rightarrow> e
                      | None \<Rightarrow> Errorf ''User has insufficient access to list %s'' [gvr])) f)) \<and>
   (snd (conn_CanI E (fst (namespaced path)) gvr [''get'']) \<noteq> None \<or>
    \<not> fst (conn_CanI E (fst (namespaced path)) gvr [''get'']) \<longrightarrow>
      Get E n gvr path sel f =
        Some (Return (None,
                Some (case snd (conn_CanI E (fst (namespaced path)) gvr [''get'']) of
                        Some e \<Rightarrow> e
                      | None \<Rightarrow> Errorf ''User has insufficient access to get %s'' [gvr])) f))"
proof (intro conjI impI)
  assume "snd (conn_CanI E ns gvr [''list'']) \<noteq> None \<or> \<not> fst (conn_CanI E ns gvr [''list''])"
  then show "List E n gvr ns sel f =
        Some (Return (None,
                Some (case snd (conn_CanI E ns gvr [''list'']) of
                        Some e \<Rightarrow> e
                      | None \<Rightarrow> Errorf ''User has insufficient access to list %s'' [gvr])) f)"
    by (cases "conn_CanI E ns gvr [''list'']") (auto simp: List_def)
next
  assume "snd (conn_CanI E (fst (namespaced path)) gvr [''get'']) \<noteq> None \<or>
    \<not> fst (conn_CanI E (fst (namespaced path)) gvr [''get''])"
  then show "Get E n gvr path sel f =
        Some (Return (None,
                Some (case snd (conn_CanI E (fst (namespaced path)) gvr [''get'']) of
                        Some e \<Rightarrow> e
                      | None \<Rightarrow> Errorf ''User has insufficient access to get %s'' [gvr])) f)"
    by (cases "namespaced path"; cases "conn_CanI E (fst (namespaced path)) gvr [''get'']")
      (auto simp: Get_def)
qed

theorem List_Get_refused_touch_no_cache_witness:
  "List (example_env deny) 8 ''v1/pods'' ''default'' ''app=web'' NewFactory =
     Some (Return (None, Some (Errorf ''User has insufficient access to list %s'' [''v1/pods'']))
       NewFactory) \<and>
   Get (example_env transport_down) 8 ''v1/pods'' ''default/pod-a'' ''app=web'' NewFactory =
     Some (Return (None, Some (External ''timeout'')) NewFactory)"
proof -
  have 1: "snd (conn_CanI (example_env deny) ''default'' ''v1/pods'' [''list'']) \<noteq> None \<or>
      \<not> fst (conn_CanI (example_env deny) ''default'' ''v1/pods'' [''list''])"
    by (simp add: example_env_def deny_def)
  have 2: "snd (conn_CanI (example_env transport_down) (fst (namespaced ''default/pod-a''))
              ''v1/pods'' [''get'']) \<noteq> None \<or>
      \<not> fst (conn_CanI (example_env transport_down) (fst (namespaced ''default/pod-a''))
              ''v1/pods'' [''get''])"
    by (simp add: example_env_def transport_down_def)
  from List_Get_refused_touch_no_cache
         [where E = "example_env deny" and ns = "''default''" and gvr = "''v1/pods''" and n = 8
            and sel = "''app=web''" and f = NewFactory, THEN conjunct1, rule_format, OF 1]
  have a: "List (example_env deny) 8 ''v1/pods'' ''default'' ''app=web'' NewFactory =
     Some (Return (None, Some (Errorf ''User has insufficient access to list %s'' [''v1/pods'']))
       NewFactory)"
    by (simp add: example_env_def deny_def)
  from List_Get_refused_touch_no_cache
         [where E = "example_env transport_down" and path = "''default/pod-a''"
            and gvr = "''v1/pods''" and n = 8 and sel = "''app=web''" and f = NewFactory,
          THEN conjunct2, rule_format, OF 2]
  have b: "Get (example_env transport_down) 8 ''v1/pods'' ''default/pod-a'' ''app=web'' NewFactory =
     Some (Return (None, Some (External ''timeout'')) NewFactory)"
    by (simp add: example_env_def transport_down_def)
  from a b show ?thesis by (rule conjI)
qed

section \<open>Which store is read\<close>

text \<open>
  Claim C7: once the authorization check has passed and \<open>ForResource\<close> has returned an
  informer, \<open>List\<close> with the cluster-scope sentinel reads the scope-wide listing of that
  informer and with any other scope the listing of that namespace; \<open>Get\<close> splits its path
  into namespace and name and, when the namespace part is the sentinel, looks the object
  up by its name alone, otherwise by its name within that namespace. The result of the
  operation is the answer of that one read.
\<close>

theorem List_Get_read_by_scope:
  assumes inf: "ForResource E n ns gvr f = Some (Return (Some i) f1)"
  shows "(conn_CanI E ns gvr [''list''] = (True, None) \<longrightarrow>
            List E n gvr ns sel f =
              (if ns = clusterScope
               then Some (Return (lister_List E (Lister_List i sel))
                      (f1\<lparr>trace := trace f1 @ [StoreRead (Lister_List i sel)]\<rparr>))
               else Some (Return (lister_List E (Lister_ByNamespace_List i ns sel))
                      (f1\<lparr>trace := trace f1 @ [StoreRead (Lister_ByNamespace_List i ns sel)]\<rparr>)))) \<and>
         (namespaced path = (ns, nm) \<and> conn_CanI E ns gvr [''get''] = (True, None) \<longrightarrow>
            Get E n gvr path sel f =
              (if ns = clusterScope
               then Some (Return (lister_Get E (Lister_Get i nm))
                      (f1\<lparr>trace := trace f1 @ [StoreRead (Lister_Get i nm)]\<rparr>))
               else Some (Return (lister_Get E (Lister_ByNamespace_Get i ns nm))
                      (f1\<lparr>trace := trace f1 @ [StoreRead (Lister_ByNamespace_Get i ns nm)]\<rparr>))))"
  using inf by (simp add: List_def Get_def store_List_def store_Get_def)

lemma toGVR_pods: "toGVR ''v1/pods'' = Inr pods"
  by (simp add: toGVR_def index_def pods_def)

lemma ForResource_cluster_wide_example:
  "ForResource (example_env allow) 2 ns ''v1/pods'' cluster_wide_factory =
     Some (Return (Some (0, pods))
       (cluster_wide_factory\<lparr>trace := [NewInformerFactory 0 allNamespaces,
          FactForResource 0 pods, FactStart 0 (Some 0)]\<rparr>))"
  by (simp add: numeral_2_eq_2 isClusterWide_def cluster_wide_factory_def NewFactory_def
      toGVR_pods example_env_def)

theorem List_Get_read_by_scope_witness:
  "List (example_env allow) 2 ''v1/pods'' ''default'' ''app=web'' cluster_wide_factory =
     Some (Return (Some [''pod-a'', ''pod-b''], None)
       (cluster_wide_factory\<lparr>trace := [NewInformerFactory 0 allNamespaces,
          FactForResource 0 pods, FactStart 0 (Some 0),
          StoreRead (Lister_ByNamespace_List (0, pods) ''default'' ''app=web'')]\<rparr>)) \<and>
   Get (example_env allow) 2 ''v1/pods'' ''-/pod-a'' ''app=web'' cluster_wide_factory =
     Some (Return (Some ''pod-a'', None)
       (cluster_wide_factory\<lparr>trace := [NewInformerFactory 0 allNamespaces,
          FactForResource 0 pods, FactStart 0 (Some 0),
          StoreRead (Lister_Get (0, pods) ''pod-a'')]\<rparr>))"
proof -
  have g: "conn_CanI (example_env allow) ns ''v1/pods'' vs = (True, None)" for ns vs
    by (simp add: example_env_def allow_def)
  have p: "namespaced ''-/pod-a'' = (''-'', ''pod-a'')"
    by (simp add: namespaced_def path_Split_def Trim_def)
  have l: "lister_List (example_env allow) q = (Some [''pod-a'', ''pod-b''], None)" for q
    by (simp add: example_env_def)
  have t: "lister_Get (example_env allow) q = (Some ''pod-a'', None)" for q
    by (simp add: example_env_def)
  from List_Get_read_by_scope [OF ForResource_cluster_wide_example [of "''default''"],
         THEN conjunct1, rule_format, OF g, of "''app=web''"]
  have a: "List (example_env allow) 2 ''v1/pods'' ''default'' ''app=web'' cluster_wide_factory =
     Some (Return (Some [''pod-a'', ''pod-b''], None)
       (cluster_wide_factory\<lparr>trace := [NewInformerFactory 0 allNamespaces,
          FactForResource 0 pods, FactStart 0 (Some 0),
          StoreRead (Lister_ByNamespace_List (0, pods) ''default'' ''app=web'')]\<rparr>))"
    by (simp add: l clusterScope_def)
  from List_Get_read_by_scope [OF ForResource_cluster_wide_example [of "''-''"],
         THEN conjunct2, rule_format, OF conjI [OF p g], of "''app=web''"]
  have b: "Get (example_env allow) 2 ''v1/pods'' ''-/pod-a'' ''app=web'' cluster_wide_factory =
     Some (Return (Some ''pod-a'', None)
       (cluster_wide_factory\<lparr>trace := [NewInformerFactory 0 allNamespaces,
          FactForResource 0 pods, FactStart 0 (Some 0),
          StoreRead (Lister_Get (0, pods) ''pod-a'')]\<rparr>))"
    by (simp add: t clusterScope_def)
  from a b show ?thesis by (rule conjI)
qed

section \<open>Forwarder registry\<close>

text \<open>
  Claim C8: \<open>RegisterForwarder\<close> stores the session under its path and makes no call, so
  a session held under that path before is replaced without being stopped, and a lookup
  of the path afterwards gives the session registered last; the other paths are as
  before. \<open>DeleteForwarder\<close> on a path that holds a session first calls \<open>Stop()\<close> on that
  session, which is still registered at that moment, and then deletes the entry: the
  trace grows by the stop followed by the deletion. On a path that holds no session it
  changes nothing.
\<close>

theorem forwarder_register_delete:
  "ForwarderFor p (RegisterForwarder pf f) =
     (if p = Path pf then (Some pf, True) else ForwarderFor p f) \<and>
   stopped (RegisterForwarder pf f) = stopped f \<and>
   trace (RegisterForwarder pf f) = trace f \<and>
   ForwarderFor (Path pf) (RegisterForwarder pf' (RegisterForwarder pf f)) =
     (if Path pf' = Path pf then (Some pf', True) else (Some pf, True)) \<and>
   (forwarders f p = Some fwd \<longrightarrow>
      DeleteForwarder p f = delete_forwarders p (Stop fwd f) \<and>
      ForwarderFor p (Stop fwd f) = (Some fwd, True) \<and>
      trace (DeleteForwarder p f) = trace f @ [ForwarderStop fwd, ForwardersDelete p] \<and>
      stopped (DeleteForwarder p f) = insert fwd (stopped f) \<and>
      forwarders (DeleteForwarder p f) = (forwarders f)(p := None) \<and>
      ForwarderFor p (DeleteForwarder p f) = (None, False)) \<and>
   (forwarders f p = None \<longrightarrow> DeleteForwarder p f = f)"
  by (simp add: ForwarderFor_def RegisterForwarder_def DeleteForwarder_def Stop_def
      delete_forwarders_def)

theorem forwarder_register_delete_witness:
  "ForwarderFor ''default/web/nginx'' (RegisterForwarder fwd2 (RegisterForwarder fwd1 NewFactory)) =
     (Some fwd2, True) \<and>
   stopped (RegisterForwarder fwd2 (RegisterForwarder fwd1 NewFactory)) = {} \<and>
   trace (RegisterForwarder fwd2 (RegisterForwarder fwd1 NewFactory)) = [] \<and>
   trace (DeleteForwarder ''default/web/nginx''
            (RegisterForwarder fwd2 (RegisterForwarder fwd1 NewFactory))) =
     [ForwarderStop fwd2, ForwardersDelete ''default/web/nginx''] \<and>
   stopped (DeleteForwarder ''default/web/nginx''
              (RegisterForwarder fwd2 (RegisterForwarder fwd1 NewFactory))) = {fwd2} \<and>
   ForwarderFor ''default/web/nginx''
     (DeleteForwarder ''default/web/nginx''
        (RegisterForwarder fwd2 (RegisterForwarder fwd1 NewFactory))) = (None, False) \<and>
   DeleteForwarder ''default/db/postgres'' (RegisterForwarder fwd1 NewFactory) =
     RegisterForwarder fwd1 NewFactory"
proof -
  let ?f1 = "RegisterForwarder fwd1 NewFactory"
  let ?f2 = "RegisterForwarder fwd2 ?f1"
  let ?p = "''default/web/nginx''"
  have p: "Path fwd1 = ?p" "Path fwd2 = ?p"
    by (simp_all add: fwd1_def fwd2_def)
  have h2: "forwarders ?f2 ?p = Some fwd2"
    by (simp add: RegisterForwarder_def p)
  have h1: "forwarders ?f1 ''default/db/postgres'' = None"
    by (simp add: RegisterForwarder_def NewFactory_def p)
  have s0: "stopped NewFactory = {}" by (simp add: NewFactory_def)
  have t0: "trace NewFactory = []" by (simp add: NewFactory_def)
  note r1 = forwarder_register_delete [where pf = fwd1 and pf' = fwd2 and f = NewFactory]
  note r2 = forwarder_register_delete [where pf = fwd2 and f = ?f1]
  note d2 = forwarder_register_delete [where f = ?f2 and p = ?p and fwd = fwd2]
  note d1 = forwarder_register_delete [where f = ?f1 and p = "''default/db/postgres''"]
  have a: "ForwarderFor ?p ?f2 = (Some fwd2, True)"
    using r1 p by simp
  have b: "stopped ?f2 = {}"
    using r1 r2 s0 by simp
  have t: "trace ?f2 = []"
    using r1 r2 t0 by simp
  have "trace (DeleteForwarder ?p ?f2) = trace ?f2 @ [ForwarderStop fwd2, ForwardersDelete ?p]"
    using d2 h2 by blast
  then have c: "trace (DeleteForwarder ?p ?f2) = [ForwarderStop fwd2, ForwardersDelete ?p]"
    by (simp only: t append_Nil)
  have "stopped (DeleteForwarder ?p ?f2) = insert fwd2 (stopped ?f2)"
    using d2 h2 by blast
  then have d: "stopped (DeleteForwarder ?p ?f2) = {fwd2}"
    by (simp only: b)
  have e: "ForwarderFor ?p (DeleteForwarder ?p ?f2) = (None, False)"
    using d2 h2 by blast
  have g: "DeleteForwarder ''default/db/postgres'' ?f1 = ?f1"
    using d1 h1 by blast
  from a b t c d e g show ?thesis by (intro conjI)
qed

section \<open>Termination of the factory\<close>

lemma Terminate_open:
  assumes "stopChan f = Some c" and "Close c \<notin> set (trace f)"
  shows "Terminate f =
           Return () (f\<lparr>trace := trace f @ [Close c], stopChan := None, factories := Map.empty,
                        stopped := stopped f \<union> ran (forwarders f), forwarders := Map.empty\<rparr>)"
  using assms by (simp add: Terminate_def close_def DeleteAll_def)

lemma Terminate_nil:
  assumes "stopChan f = None"
  shows "Terminate f =
           Return () (f\<lparr>factories := Map.empty,
                        stopped := stopped f \<union> ran (forwarders f), forwarders := Map.empty\<rparr>)"
  using assms by (simp add: Terminate_def DeleteAll_def)

text \<open>
  Claim C5: \<open>Terminate\<close> on a factory whose channel is there and open closes the channel
  once, sets the field to nil, empties the map of informer factories, and stops and
  removes every registered session (the latter through \<open>DeleteAll\<close>). A second call finds
  the field nil, closes nothing, does not panic and leaves the state as the first call
  left it.
\<close>

theorem Terminate_one_shot:
  assumes "stopChan f = Some c" and "Close c \<notin> set (trace f)"
  shows "Terminate f =
           Return () (f\<lparr>trace := trace f @ [Close c], stopChan := None, factories := Map.empty,
                        stopped := stopped f \<union> ran (forwarders f), forwarders := Map.empty\<rparr>) \<and>
         Terminate (f\<lparr>trace := trace f @ [Close c], stopChan := None, factories := Map.empty,
                      stopped := stopped f \<union> ran (forwarders f), forwarders := Map.empty\<rparr>) =
           Return () (f\<lparr>trace := trace f @ [Close c], stopChan := None, factories := Map.empty,
                        stopped := stopped f \<union> ran (forwarders f), forwarders := Map.empty\<rparr>)"
  using assms by (simp add: Terminate_open Terminate_nil)

lemma ran_two_forwarders:
  "ran (forwarders (RegisterForwarder fwd3 (RegisterForwarder fwd1 cluster_wide_factory))) =
     {fwd1, fwd3}"
proof -
  have m: "forwarders (RegisterForwarder fwd3 (RegisterForwarder fwd1 cluster_wide_factory)) =
      [''default/web/nginx'' \<mapsto> fwd1, ''default/db/postgres'' \<mapsto> fwd3]"
    by (simp add: RegisterForwarder_def cluster_wide_factory_def NewFactory_def fwd1_def fwd3_def)
  have n: "[''default/web/nginx'' \<mapsto> fwd1] ''default/db/postgres'' = None"
    by simp
  have "ran [''default/web/nginx'' \<mapsto> fwd1, ''default/db/postgres'' \<mapsto> fwd3] =
      insert fwd3 (ran [''default/web/nginx'' \<mapsto> fwd1])"
    using n by (rule ran_map_upd)
  also have "\<dots> = insert fwd3 {fwd1}" by simp
  also have "\<dots> = {fwd1, fwd3}" by (rule insert_commute)
  finally show ?thesis unfolding m .
qed
theorem Terminate_one_shot_witness:
  "Terminate (RegisterForwarder fwd3 (RegisterForwarder fwd1 cluster_wide_factory)) =
     Return () \<lparr>factories = Map.empty, stopChan = None, activeNS = '''', forwarders = Map.empty,
                trace = [NewInformerFactory 0 allNamespaces, Close 0], stopped = {fwd1, fwd3}\<rparr> \<and>
   Terminate \<lparr>factories = Map.empty, stopChan = None, activeNS = '''', forwarders = Map.empty,
              trace = [NewInformerFactory 0 allNamespaces, Close 0], stopped = {fwd1, fwd3}\<rparr> =
     Return () \<lparr>factories = Map.empty, stopChan = None, activeNS = '''', forwarders = Map.empty,
                trace = [NewInformerFactory 0 allNamespaces, Close 0], stopped = {fwd1, fwd3}\<rparr>"
proof -
  let ?f = "RegisterForwarder fwd3 (RegisterForwarder fwd1 cluster_wide_factory)"
  have c: "stopChan ?f = Some 0"
    by (simp add: RegisterForwarder_def cluster_wide_factory_def NewFactory_def)
  have o: "Close 0 \<notin> set (trace ?f)"
    by (simp add: RegisterForwarder_def cluster_wide_factory_def NewFactory_def)
  have e: "?f\<lparr>trace := trace ?f @ [Close 0], stopChan := None, factories := Map.empty,
              stopped := stopped ?f \<union> ran (forwarders ?f), forwarders := Map.empty\<rparr> =
      \<lparr>factories = Map.empty, stopChan = None, activeNS = '''', forwarders = Map.empty,
       trace = [NewInformerFactory 0 allNamespaces, Close 0], stopped = {fwd1, fwd3}\<rparr>"
    unfolding ran_two_forwarders
    by (simp add: RegisterForwarder_def cluster_wide_factory_def NewFactory_def)
  from Terminate_one_shot [OF c o] show ?thesis
    unfolding e .
qed

section \<open>Ensuring informer factories\<close>

subsection \<open>Sequencing\<close>

lemma and_then_Some:
  assumes "and_then x k = Some r"
  shows "(\<exists>p g. x = Some (Panic p g) \<and> r = Panic p g) \<or>
         (\<exists>v g. x = Some (Return v g) \<and> k v g = Some r)"
proof (cases x)
  case None
  with assms show ?thesis by simp
next
  case (Some y)
  with assms show ?thesis by (cases y) simp_all
qed

lemma and_then_Return:
  assumes "and_then x k = Some (Return v f)"
  shows "\<exists>u g. x = Some (Return u g) \<and> k u g = Some (Return v f)"
  using and_then_Some [OF assms] by auto

lemma and_then_trans:
  assumes run: "and_then x k = Some r"
    and first: "\<And>y. x = Some y \<Longrightarrow> R f (state_of y)"
    and rest: "\<And>v g. x = Some (Return v g) \<Longrightarrow> k v g = Some r \<Longrightarrow> R g (state_of r)"
    and trans: "\<And>a b c. R a b \<Longrightarrow> R b c \<Longrightarrow> R a c"
  shows "R f (state_of r)"
proof -
  from and_then_Some [OF run] show ?thesis
  proof
    assume "\<exists>p g. x = Some (Panic p g) \<and> r = Panic p g"
    then obtain p g where "x = Some (Panic p g)" "r = Panic p g" by blast
    with first [of "Panic p g"] show ?thesis by simp
  next
    assume "\<exists>v g. x = Some (Return v g) \<and> k v g = Some r"
    then obtain v g where x: "x = Some (Return v g)" and k: "k v g = Some r" by blast
    from first [OF x] have "R f g" by simp
    moreover from rest [OF x k] have "R g (state_of r)" .
    ultimately show ?thesis by (rule trans)
  qed
qed

subsection \<open>On a cluster-wide factory\<close>

lemma ensureFactory_cluster_wide:
  assumes "isClusterWide f"
  shows "ensureFactory E (Suc n) ns f = Some (Return (factories f allNamespaces) f)"
  using assms by (auto simp: isClusterWide_def)

lemma ForResource_cluster_wide:
  assumes cw: "isClusterWide f" and run: "ForResource E n ns gvr f = Some r"
  shows "factories (state_of r) = factories f \<and>
         filter is_new (trace (state_of r)) = filter is_new (trace f)"
proof (cases n)
  case 0
  with run show ?thesis by simp
next
  case n: (Suc m)
  show ?thesis
  proof (cases m)
    case 0
    with n run show ?thesis by simp
  next
    case (Suc k)
    with n run cw show ?thesis
      by (auto simp: ensureFactory_cluster_wide isClusterWide_def Let_def
          split: sum.splits option.splits)
  qed
qed

lemma preload_trans:
  assumes run: "preload E (Suc m) ns f = Some r"
    and step: "\<And>ns gvr g y. ForResource E m ns gvr g = Some y \<Longrightarrow> R g (state_of y)"
    and refl: "\<And>a. R a a"
    and trans: "\<And>a b c. R a b \<Longrightarrow> R b c \<Longrightarrow> R a c"
  shows "R f (state_of r)"
  using run
  apply simp
  apply (erule and_then_trans [where R = R])
    apply (erule step)
   prefer 2 apply (erule (1) trans)
  apply (erule and_then_trans [where R = R])
    apply (erule step)
   prefer 2 apply (erule (1) trans)
  apply (erule and_then_trans [where R = R])
    apply (erule step)
   prefer 2 apply (erule (1) trans)
  apply (erule and_then_trans [where R = R])
    apply (erule step)
   prefer 2 apply (erule (1) trans)
  apply (auto intro: refl)
  done

lemma preload_cluster_wide:
  assumes cw: "isClusterWide f" and run: "preload E n ns f = Some r"
  shows "factories (state_of r) = factories f \<and>
         filter is_new (trace (state_of r)) = filter is_new (trace f)"
proof (cases n)
  case 0
  with run show ?thesis by simp
next
  case (Suc m)
  let ?R = "\<lambda>a b. isClusterWide a \<longrightarrow>
     factories b = factories a \<and> filter is_new (trace b) = filter is_new (trace a)"
  have "?R f (state_of r)"
  proof (rule preload_trans [where R = ?R])
    show "preload E (Suc m) ns f = Some r" using run Suc by simp
    show "\<And>ns gvr g y. ForResource E m ns gvr g = Some y \<Longrightarrow> ?R g (state_of y)"
      using ForResource_cluster_wide by blast
    show "\<And>a. ?R a a" by simp
    show "\<And>a b c. ?R a b \<Longrightarrow> ?R b c \<Longrightarrow> ?R a c"
      by (simp add: isClusterWide_def)
  qed
  with cw show ?thesis by simp
qed
subsection \<open>Entries of the map are never removed or changed\<close>

lemma ForResource_trans:
  assumes run: "ForResource E (Suc m) ns gvr f = Some r"
    and step: "\<And>y. ensureFactory E m ns f = Some y \<Longrightarrow> R f (state_of y)"
    and traced: "\<And>g tr. R g (g\<lparr>trace := tr\<rparr>)"
    and refl: "\<And>a. R a a"
    and trans: "\<And>a b c. R a b \<Longrightarrow> R b c \<Longrightarrow> R a c"
  shows "R f (state_of r)"
  using run
  apply simp
  apply (erule and_then_trans [where R = R])
    apply (erule step)
   prefer 2 apply (erule (1) trans)
  apply (auto simp: Let_def traced refl split: sum.splits option.splits)
  done

lemma ensureFactory_trans:
  assumes run: "ensureFactory E (Suc m) ns f = Some r"
    and step: "\<And>k g y. preload E m k g = Some y \<Longrightarrow> R g (state_of y)"
    and built: "\<And>k x. factories f k = None \<Longrightarrow>
        R f (f\<lparr>factories := (factories f)(k \<mapsto> x), trace := trace f @ [NewInformerFactory x k]\<rparr>)"
    and refl: "\<And>a. R a a"
    and trans: "\<And>a b c. R a b \<Longrightarrow> R b c \<Longrightarrow> R a c"
  shows "R f (state_of r)"
proof -
  define k where "k = (if isClusterWide f then allNamespaces else ns)"
  show ?thesis
  proof (cases "factories f k")
    case (Some fac)
    with run show ?thesis by (auto simp: k_def refl)
  next
    case None
    show ?thesis
    proof (cases "conn_DynDialOrDie E (trace f)")
      case False
      with run None show ?thesis by (auto simp: k_def refl)
    next
      case True
      define g where "g = f\<lparr>factories := (factories f)(k \<mapsto> fresh (trace f)),
        trace := trace f @ [NewInformerFactory (fresh (trace f)) k]\<rparr>"
      from run None True
      have a: "and_then (preload E m k g) (\<lambda>_ f. Some (Return (factories f k) f)) = Some r"
        by (simp add: k_def g_def Let_def)
      have fg: "R f g" unfolding g_def using None by (rule built)
      have "R g (state_of r)"
        using a
        apply (rule and_then_trans [where R = R])
          apply (erule step)
         apply (auto intro: refl)[1]
        apply (erule (1) trans)
        done
      with fg show ?thesis by (rule trans)
    qed
  qed
qed

lemma factories_grow:
  "(\<forall>ns f r. ensureFactory E n ns f = Some r \<longrightarrow> factories f \<subseteq>\<^sub>m factories (state_of r)) \<and>
   (\<forall>ns f r. preload E n ns f = Some r \<longrightarrow> factories f \<subseteq>\<^sub>m factories (state_of r)) \<and>
   (\<forall>ns gvr f r. ForResource E n ns gvr f = Some r \<longrightarrow> factories f \<subseteq>\<^sub>m factories (state_of r))"
proof (induction n)
  case 0
  show ?case by simp
next
  case (Suc n)
  let ?R = "\<lambda>a b. factories a \<subseteq>\<^sub>m factories b"
  have tr: "\<And>a b c. ?R a b \<Longrightarrow> ?R b c \<Longrightarrow> ?R a c" by (rule map_le_trans)
  have e: "?R f (state_of r)" if "ensureFactory E (Suc n) ns f = Some r" for ns f r
    using that
  proof (rule ensureFactory_trans [where R = ?R])
    show "\<And>k g y. preload E n k g = Some y \<Longrightarrow> ?R g (state_of y)" using Suc by blast
    show "\<And>k x. factories f k = None \<Longrightarrow> ?R f (f\<lparr>factories := (factories f)(k \<mapsto> x),
        trace := trace f @ [NewInformerFactory x k]\<rparr>)"
      by (auto simp: map_le_def)
  qed (simp, erule (1) tr)
  have p: "?R f (state_of r)" if "preload E (Suc n) ns f = Some r" for ns f r
    using that
  proof (rule preload_trans [where R = ?R])
    show "\<And>ns gvr g y. ForResource E n ns gvr g = Some y \<Longrightarrow> ?R g (state_of y)"
      using Suc by blast
  qed (simp, erule (1) tr)
  have r: "?R f (state_of r)" if "ForResource E (Suc n) ns gvr f = Some r" for ns gvr f r
    using that
  proof (rule ForResource_trans [where R = ?R])
    show "\<And>y. ensureFactory E n ns f = Some y \<Longrightarrow> ?R f (state_of y)" using Suc by blast
  qed (simp, simp, erule (1) tr)
  from e p r show ?case by blast
qed

lemma ensureFactory_grows:
  "ensureFactory E n ns f = Some r \<Longrightarrow> factories f \<subseteq>\<^sub>m factories (state_of r)"
  using factories_grow by blast

lemma preload_grows:
  "preload E n ns f = Some r \<Longrightarrow> factories f \<subseteq>\<^sub>m factories (state_of r)"
  using factories_grow by blast

lemma ForResource_grows:
  "ForResource E n ns gvr f = Some r \<Longrightarrow> factories f \<subseteq>\<^sub>m factories (state_of r)"
  using factories_grow by blast

lemma grows_cluster_wide:
  "factories f \<subseteq>\<^sub>m factories g \<Longrightarrow> isClusterWide f \<Longrightarrow> isClusterWide g"
  by (auto simp: isClusterWide_def map_le_def dom_def)
subsection \<open>What a returning call leaves behind\<close>

lemma ensureFactory_Return_cases:
  assumes run: "ensureFactory E n ns f = Some (Return ref f1)"
  defines "k \<equiv> (if isClusterWide f then allNamespaces else ns)"
  shows "(factories f k = ref \<and> ref \<noteq> None \<and> f1 = f) \<or>
         (factories f k = None \<and> ref = factories f1 k \<and>
          (\<exists>m. n = Suc (Suc m) \<and>
             preload E (Suc m) k
               (f\<lparr>factories := (factories f)(k \<mapsto> fresh (trace f)),
                  trace := trace f @ [NewInformerFactory (fresh (trace f)) k]\<rparr>) =
             Some (Return () f1)))"
proof (cases n)
  case 0
  with run show ?thesis by simp
next
  case (Suc m)
  show ?thesis
  proof (cases "factories f k")
    case (Some fac)
    with run Suc show ?thesis by (auto simp: k_def)
  next
    case None
    define g where "g = f\<lparr>factories := (factories f)(k \<mapsto> fresh (trace f)),
        trace := trace f @ [NewInformerFactory (fresh (trace f)) k]\<rparr>"
    from run Suc None
    have a: "and_then (preload E m k g) (\<lambda>_ f. Some (Return (factories f k) f)) =
        Some (Return ref f1)"
      by (auto simp: k_def g_def Let_def split: if_splits)
    from and_then_Return [OF a] obtain u where p: "preload E m k g = Some (Return u f1)"
      and f: "ref = factories f1 k"
      by auto
    from p obtain m' where m: "m = Suc m'" by (cases m) auto
    from p m have "preload E (Suc m') k g = Some (Return () f1)" by simp
    with None f Suc m show ?thesis unfolding g_def by blast
  qed
qed

lemma ensureFactory_Return_key:
  assumes run: "ensureFactory E n ns f = Some (Return ref f1)"
  shows "ref = factories f1 (if isClusterWide f then allNamespaces else ns) \<and> ref \<noteq> None"
proof -
  define k where "k = (if isClusterWide f then allNamespaces else ns)"
  from ensureFactory_Return_cases [OF run] show ?thesis
  proof (elim disjE conjE exE)
    assume "factories f (if isClusterWide f then allNamespaces else ns) = ref"
      "ref \<noteq> None" "f1 = f"
    then show ?thesis by simp
  next
    fix m
    assume f: "ref = factories f1 (if isClusterWide f then allNamespaces else ns)"
      and p: "preload E (Suc m) (if isClusterWide f then allNamespaces else ns)
               (f\<lparr>factories := (factories f)((if isClusterWide f then allNamespaces else ns)
                      \<mapsto> fresh (trace f)),
                  trace := trace f @ [NewInformerFactory (fresh (trace f))
                      (if isClusterWide f then allNamespaces else ns)]\<rparr>) =
             Some (Return () f1)"
    from preload_grows [OF p]
    have "factories f1 (if isClusterWide f then allNamespaces else ns) = Some (fresh (trace f))"
      by (auto simp: map_le_def dom_def)
    with f show ?thesis by simp
  qed
qed

lemma ForResource_Return_factories:
  assumes run: "ForResource E n ns gvr f = Some (Return x f')"
  shows "\<exists>m ref f1. n = Suc m \<and> ensureFactory E m ns f = Some (Return ref f1) \<and>
           factories f' = factories f1"
proof (cases n)
  case 0
  with run show ?thesis by simp
next
  case (Suc m)
  with run have "and_then (ensureFactory E m ns f) (\<lambda>ref f.
       case toGVR gvr of
         Inl p \<Rightarrow> Some (Panic p f)
       | Inr g \<Rightarrow>
           (case ref of
              None \<Rightarrow> Some (Panic NilDereference f)
            | Some r \<Rightarrow>
                let f = f\<lparr>trace := trace f @ [FactForResource r g]\<rparr>;
                    inf = (if fact_ForResource E r g then Some (r, g) else None);
                    f = f\<lparr>trace := trace f @ [FactStart r (stopChan f)]\<rparr>
                in Some (Return inf f))) = Some (Return x f')"
    by simp
  from and_then_Return [OF this] obtain ref f1 where
    e: "ensureFactory E m ns f = Some (Return ref f1)" and
    k: "(case toGVR gvr of
         Inl p \<Rightarrow> Some (Panic p f1)
       | Inr g \<Rightarrow>
           (case ref of
              None \<Rightarrow> Some (Panic NilDereference f1)
            | Some r \<Rightarrow>
                let f = f1\<lparr>trace := trace f1 @ [FactForResource r g]\<rparr>;
                    inf = (if fact_ForResource E r g then Some (r, g) else None);
                    f = f\<lparr>trace := trace f @ [FactStart r (stopChan f)]\<rparr>
                in Some (Return inf f))) = Some (Return x f')"
    by blast
  from k have "factories f' = factories f1"
    by (auto simp: Let_def split: sum.splits option.splits)
  with e Suc show ?thesis by blast
qed

lemma ForResource_allNamespaces_cluster_wide:
  assumes run: "ForResource E n allNamespaces gvr f = Some (Return x f')"
  shows "isClusterWide f'"
proof -
  from ForResource_Return_factories [OF run] obtain m ref f1 where
    e: "ensureFactory E m allNamespaces f = Some (Return ref f1)" and
    s: "factories f' = factories f1"
    by blast
  from ensureFactory_Return_key [OF e] have "factories f1 allNamespaces \<noteq> None"
    by (auto split: if_splits)
  with s show ?thesis by (simp add: isClusterWide_def)
qed

lemma preload_Return_cluster_wide:
  assumes run: "preload E n ns f = Some (Return u f')"
  shows "isClusterWide f'"
proof (cases n)
  case 0
  with run show ?thesis by simp
next
  case (Suc m)
  from run Suc obtain x1 f1 x2 f2 x3 f3 x4 where
    "ForResource E m ns ''v1/pods'' f = Some (Return x1 f1)" and
    2: "ForResource E m allNamespaces
          ''apiextensions.k8s.io/v1beta1/customresourcedefinitions'' f1 = Some (Return x2 f2)" and
    3: "ForResource E m clusterScope ''rbac.authorization.k8s.io/v1/clusterroles'' f2 =
          Some (Return x3 f3)" and
    4: "ForResource E m allNamespaces ''rbac.authorization.k8s.io/v1/roles'' f3 =
          Some (Return x4 f')"
    apply simp
    apply (drule and_then_Return, elim exE conjE)+
    apply auto
    done
  from ForResource_allNamespaces_cluster_wide [OF 2] have "isClusterWide f2" .
  with ForResource_grows [OF 3] have "isClusterWide f3"
    using grows_cluster_wide by fastforce
  with ForResource_grows [OF 4] show ?thesis
    using grows_cluster_wide by fastforce
qed

lemma ensureFactory_Return_cluster_wide:
  assumes run: "ensureFactory E n ns f = Some (Return ref f1)"
    and miss: "factories f ns = None \<or> isClusterWide f"
  shows "isClusterWide f1"
proof (cases "isClusterWide f")
  case True
  with ensureFactory_grows [OF run] show ?thesis
    using grows_cluster_wide by fastforce
next
  case False
  with miss have "factories f ns = None" by simp
  with False ensureFactory_Return_cases [OF run] obtain m g where
    "preload E (Suc m) ns g = Some (Return () f1)"
    by auto
  then show ?thesis by (rule preload_Return_cluster_wide)
qed
subsection \<open>Enough call depth makes the calls return\<close>

lemma toGVR_preload:
  "toGVR ''v1/pods'' = Inr \<lparr>Group = '''', Version = ''v1'', Resource = ''pods''\<rparr>"
  "toGVR ''apiextensions.k8s.io/v1beta1/customresourcedefinitions'' =
     Inr \<lparr>Group = ''apiextensions.k8s.io'', Version = ''v1beta1'',
          Resource = ''customresourcedefinitions''\<rparr>"
  "toGVR ''rbac.authorization.k8s.io/v1/clusterroles'' =
     Inr \<lparr>Group = ''rbac.authorization.k8s.io'', Version = ''v1'', Resource = ''clusterroles''\<rparr>"
  "toGVR ''rbac.authorization.k8s.io/v1/roles'' =
     Inr \<lparr>Group = ''rbac.authorization.k8s.io'', Version = ''v1'', Resource = ''roles''\<rparr>"
  by (simp_all add: toGVR_def index_def)

lemma ensureFactory_hit:
  assumes "isClusterWide f \<or> factories f ns \<noteq> None"
  shows "\<exists>fac. ensureFactory E (Suc n) ns f = Some (Return (Some fac) f)"
  using assms by (auto simp: isClusterWide_def)

lemma ForResource_hit:
  assumes hit: "isClusterWide f \<or> factories f ns \<noteq> None" and gvr: "toGVR gvr = Inr g"
  shows "\<exists>i f'. ForResource E (Suc (Suc n)) ns gvr f = Some (Return i f') \<and>
           factories f' = factories f"
proof -
  from ensureFactory_hit [OF hit] obtain fac where
    "ensureFactory E (Suc n) ns f = Some (Return (Some fac) f)" by blast
  then show ?thesis using gvr by (simp add: Let_def)
qed

lemma same_factories_cluster_wide:
  "factories g = factories f \<Longrightarrow> isClusterWide f \<Longrightarrow> isClusterWide g"
  by (simp add: isClusterWide_def)

lemma preload_cluster_wide_returns:
  assumes cw: "isClusterWide f"
  shows "\<exists>f'. preload E (Suc (Suc (Suc n))) ns f = Some (Return () f') \<and>
           factories f' = factories f"
proof -
  from ForResource_hit [OF _ toGVR_preload(1)] cw obtain i1 f1 where
    1: "ForResource E (Suc (Suc n)) ns ''v1/pods'' f = Some (Return i1 f1)" and
    s1: "factories f1 = factories f" by blast
  from s1 cw have cw1: "isClusterWide f1" by (rule same_factories_cluster_wide)
  from ForResource_hit [OF _ toGVR_preload(2)] cw1 obtain i2 f2 where
    2: "ForResource E (Suc (Suc n)) allNamespaces
          ''apiextensions.k8s.io/v1beta1/customresourcedefinitions'' f1 = Some (Return i2 f2)" and
    s2: "factories f2 = factories f1" by blast
  from s2 cw1 have cw2: "isClusterWide f2" by (rule same_factories_cluster_wide)
  from ForResource_hit [OF _ toGVR_preload(3)] cw2 obtain i3 f3 where
    3: "ForResource E (Suc (Suc n)) clusterScope ''rbac.authorization.k8s.io/v1/clusterroles'' f2 =
          Some (Return i3 f3)" and
    s3: "factories f3 = factories f2" by blast
  from s3 cw2 have cw3: "isClusterWide f3" by (rule same_factories_cluster_wide)
  from ForResource_hit [OF _ toGVR_preload(4)] cw3 obtain i4 f4 where
    4: "ForResource E (Suc (Suc n)) allNamespaces ''rbac.authorization.k8s.io/v1/roles'' f3 =
          Some (Return i4 f4)" and
    s4: "factories f4 = factories f3" by blast
  have "preload E (Suc (Suc (Suc n))) ns f = Some (Return () f4)"
    by (simp only: preload.simps 1 2 3 4 and_then.simps)
  moreover have "factories f4 = factories f" using s1 s2 s3 s4 by simp
  ultimately show ?thesis by blast
qed

lemma ensureFactory_miss:
  assumes "k = (if isClusterWide f then allNamespaces else ns)"
    and "factories f k = None"
    and "conn_DynDialOrDie E (trace f)"
  shows "ensureFactory E (Suc m) ns f =
           and_then
             (preload E m k
                (f\<lparr>factories := (factories f)(k \<mapsto> fresh (trace f)),
                   trace := trace f @ [NewInformerFactory (fresh (trace f)) k]\<rparr>))
             (\<lambda>_ f'. Some (Return (factories f' k) f'))"
  using assms by (simp add: Let_def)

lemma ensureFactory_allNamespaces_returns:
  assumes dial: "\<forall>tr. conn_DynDialOrDie E tr"
  shows "\<exists>fac f'. ensureFactory E (Suc (Suc (Suc (Suc n)))) allNamespaces f =
           Some (Return (Some fac) f') \<and> isClusterWide f'"
proof (cases "isClusterWide f")
  case True
  with ensureFactory_hit [of f allNamespaces E] show ?thesis by blast
next
  case False
  then have none: "factories f allNamespaces = None" by (simp add: isClusterWide_def)
  define g where "g = f\<lparr>factories := (factories f)(allNamespaces \<mapsto> fresh (trace f)),
      trace := trace f @ [NewInformerFactory (fresh (trace f)) allNamespaces]\<rparr>"
  have cw: "isClusterWide g" by (simp add: g_def isClusterWide_def)
  from preload_cluster_wide_returns [OF cw] obtain f' where
    p: "preload E (Suc (Suc (Suc n))) allNamespaces g = Some (Return () f')" and
    s: "factories f' = factories g" by blast
  from s have k: "factories f' allNamespaces = Some (fresh (trace f))" by (simp add: g_def)
  from s cw have cw': "isClusterWide f'" by (rule same_factories_cluster_wide)
  have "ensureFactory E (Suc (Suc (Suc (Suc n)))) allNamespaces f =
      and_then (preload E (Suc (Suc (Suc n))) allNamespaces g)
        (\<lambda>_ f. Some (Return (factories f allNamespaces) f))"
    unfolding g_def using none dial
    by (intro ensureFactory_miss) simp_all
  then have "ensureFactory E (Suc (Suc (Suc (Suc n)))) allNamespaces f =
      Some (Return (Some (fresh (trace f))) f')"
    by (simp only: p k and_then.simps)
  with cw' show ?thesis by blast
qed

lemma ForResource_allNamespaces_returns:
  assumes dial: "\<forall>tr. conn_DynDialOrDie E tr" and gvr: "toGVR gvr = Inr g"
  shows "\<exists>i f'. ForResource E (Suc (Suc (Suc (Suc (Suc n))))) allNamespaces gvr f =
           Some (Return i f') \<and> isClusterWide f'"
proof -
  from ensureFactory_allNamespaces_returns [OF dial] obtain fac f1 where
    e: "ensureFactory E (Suc (Suc (Suc (Suc n)))) allNamespaces f = Some (Return (Some fac) f1)"
    and cw: "isClusterWide f1" by blast
  show ?thesis using e cw gvr by (simp add: Let_def isClusterWide_def)
qed

lemma preload_hit_returns:
  assumes dial: "\<forall>tr. conn_DynDialOrDie E tr"
    and hit: "isClusterWide f \<or> factories f ns \<noteq> None"
  shows "\<exists>f'. preload E (Suc (Suc (Suc (Suc (Suc (Suc n)))))) ns f = Some (Return () f')"
proof -
  let ?n = "Suc (Suc (Suc (Suc (Suc n))))"
  from ForResource_hit [OF hit toGVR_preload(1), of E "Suc (Suc (Suc n))"] obtain i1 f1 where
    1: "ForResource E ?n ns ''v1/pods'' f = Some (Return i1 f1)" by blast
  from ForResource_allNamespaces_returns [OF dial toGVR_preload(2)] obtain i2 f2 where
    2: "ForResource E ?n allNamespaces
          ''apiextensions.k8s.io/v1beta1/customresourcedefinitions'' f1 = Some (Return i2 f2)" and
    cw2: "isClusterWide f2" by blast
  from ForResource_hit [OF _ toGVR_preload(3), of f2 clusterScope E "Suc (Suc (Suc n))"] cw2
  obtain i3 f3 where
    3: "ForResource E ?n clusterScope ''rbac.authorization.k8s.io/v1/clusterroles'' f2 =
          Some (Return i3 f3)" and
    s3: "factories f3 = factories f2" by blast
  from s3 cw2 have cw3: "isClusterWide f3" by (rule same_factories_cluster_wide)
  from ForResource_hit [OF _ toGVR_preload(4), of f3 allNamespaces E "Suc (Suc (Suc n))"] cw3
  obtain i4 f4 where
    4: "ForResource E ?n allNamespaces ''rbac.authorization.k8s.io/v1/roles'' f3 =
          Some (Return i4 f4)" by blast
  have "preload E (Suc ?n) ns f = Some (Return () f4)"
    by (simp only: preload.simps 1 2 3 4 and_then.simps)
  then show ?thesis by blast
qed

lemma ensureFactory_returns_Suc:
  assumes dial: "\<forall>tr. conn_DynDialOrDie E tr"
  shows "\<exists>fac f'. ensureFactory E (Suc (Suc (Suc (Suc (Suc (Suc (Suc n))))))) ns f =
           Some (Return (Some fac) f')"
proof (cases "isClusterWide f \<or> factories f ns \<noteq> None")
  case True
  from ensureFactory_hit [OF True] show ?thesis by blast
next
  case False
  then have ncw: "\<not> isClusterWide f" and none: "factories f ns = None" by simp_all
  define g where "g = f\<lparr>factories := (factories f)(ns \<mapsto> fresh (trace f)),
      trace := trace f @ [NewInformerFactory (fresh (trace f)) ns]\<rparr>"
  have hit: "isClusterWide g \<or> factories g ns \<noteq> None" by (simp add: g_def)
  from preload_hit_returns [OF dial hit] obtain f' where
    p: "preload E (Suc (Suc (Suc (Suc (Suc (Suc n)))))) ns g = Some (Return () f')" by blast
  from preload_grows [OF p] have k: "factories f' ns = Some (fresh (trace f))"
    by (auto simp: map_le_def dom_def g_def)
  have "ensureFactory E (Suc (Suc (Suc (Suc (Suc (Suc (Suc n))))))) ns f =
      and_then (preload E (Suc (Suc (Suc (Suc (Suc (Suc n)))))) ns g)
        (\<lambda>_ f. Some (Return (factories f ns) f))"
    unfolding g_def using none dial ncw
    by (intro ensureFactory_miss) simp_all
  then have "ensureFactory E (Suc (Suc (Suc (Suc (Suc (Suc (Suc n))))))) ns f =
      Some (Return (Some (fresh (trace f))) f')"
    by (simp only: p k and_then.simps)
  then show ?thesis by blast
qed

lemma ensureFactory_returns:
  assumes dial: "\<forall>tr. conn_DynDialOrDie E tr" and fuel: "7 \<le> n"
  shows "\<exists>fac f'. ensureFactory E n ns f = Some (Return (Some fac) f')"
proof -
  from fuel have "n = Suc (Suc (Suc (Suc (Suc (Suc (Suc (n - 7)))))))" by arith
  with ensureFactory_returns_Suc [OF dial, of "n - 7" ns f] show ?thesis by simp
qed
subsection \<open>A new factory and the namespace \<open>default\<close>\<close>

lemma toGVR_warm_up:
  "toGVR ''v1/pods'' = Inr pods"
  "toGVR ''apiextensions.k8s.io/v1beta1/customresourcedefinitions'' = Inr crds"
  "toGVR ''rbac.authorization.k8s.io/v1/clusterroles'' = Inr clusterroles"
  "toGVR ''rbac.authorization.k8s.io/v1/roles'' = Inr roles"
  by (simp_all add: toGVR_preload pods_def crds_def clusterroles_def roles_def)

lemma ensureFactory_fresh_default:
  "ensureFactory (example_env allow) 7 ''default'' NewFactory =
     Some (Return (Some 0) after_first_ensure)"
  by (simp add: eval_nat_numeral toGVR_warm_up isClusterWide_def allNamespaces_def
      clusterScope_def fresh_def example_env_def NewFactory_def after_first_ensure_def warm_def
      Let_def)

lemma after_first_ensure_cluster_wide: "isClusterWide after_first_ensure"
  by (simp add: isClusterWide_def after_first_ensure_def allNamespaces_def)

section \<open>Once cluster-wide, always cluster-wide\<close>

text \<open>
  Claim C2: once the map holds an entry for the all-namespaces key, \<open>ensureFactory\<close> for
  any namespace returns that entry and leaves the state as it is, so it inserts nothing;
  \<open>SetActive\<close> only sets the active namespace; and \<open>ForResource\<close>, through which every
  other operation reaches \<open>ensureFactory\<close>, builds no informer factory and leaves the map
  as it is, however it ends.
\<close>

theorem cluster_wide_serves_every_namespace:
  assumes cw: "isClusterWide f"
  shows "ensureFactory E (Suc n) ns f = Some (Return (factories f allNamespaces) f) \<and>
         factories f allNamespaces \<noteq> None \<and>
         SetActive E n ns f = Some (Return () (f\<lparr>activeNS := ns\<rparr>)) \<and>
         (\<forall>r. ForResource E n ns gvr f = Some r \<longrightarrow>
            factories (state_of r) = factories f \<and>
            filter is_new (trace (state_of r)) = filter is_new (trace f))"
proof (intro conjI allI impI)
  show "ensureFactory E (Suc n) ns f = Some (Return (factories f allNamespaces) f)"
    using cw by (rule ensureFactory_cluster_wide)
  show "factories f allNamespaces \<noteq> None"
    using cw by (simp add: isClusterWide_def)
  show "SetActive E n ns f = Some (Return () (f\<lparr>activeNS := ns\<rparr>))"
    using cw by (simp add: SetActive_def)
next
  fix r
  assume "ForResource E n ns gvr f = Some r"
  with cw show "factories (state_of r) = factories f"
    and "filter is_new (trace (state_of r)) = filter is_new (trace f)"
    using ForResource_cluster_wide by blast+
qed

theorem cluster_wide_serves_every_namespace_witness:
  "ensureFactory (example_env allow) (Suc 0) ''default'' cluster_wide_factory =
     Some (Return (Some 0) cluster_wide_factory) \<and>
   SetActive (example_env allow) 8 ''default'' cluster_wide_factory =
     Some (Return () (cluster_wide_factory\<lparr>activeNS := ''default''\<rparr>)) \<and>
   factories (state_of (Return (Some (0::nat, pods))
       (cluster_wide_factory\<lparr>trace := [NewInformerFactory 0 allNamespaces,
          FactForResource 0 pods, FactStart 0 (Some 0)]\<rparr>))) = factories cluster_wide_factory"
proof -
  have cw: "isClusterWide cluster_wide_factory"
    by (simp add: isClusterWide_def cluster_wide_factory_def)
  have k: "factories cluster_wide_factory allNamespaces = Some 0"
    by (simp add: cluster_wide_factory_def)
  note t = cluster_wide_serves_every_namespace [OF cw]
  from t [of "example_env allow" 0 "''default''", THEN conjunct1]
  have a: "ensureFactory (example_env allow) (Suc 0) ''default'' cluster_wide_factory =
     Some (Return (Some 0) cluster_wide_factory)"
    unfolding k .
  from t [of "example_env allow" 8 "''default''", THEN conjunct2, THEN conjunct2, THEN conjunct1]
  have b: "SetActive (example_env allow) 8 ''default'' cluster_wide_factory =
     Some (Return () (cluster_wide_factory\<lparr>activeNS := ''default''\<rparr>))" .
  from t [of "example_env allow" 2 "''default''" "''v1/pods''", THEN conjunct2, THEN conjunct2,
      THEN conjunct2, rule_format, OF ForResource_cluster_wide_example, THEN conjunct1]
  have c: "factories (state_of (Return (Some (0::nat, pods))
       (cluster_wide_factory\<lparr>trace := [NewInformerFactory 0 allNamespaces,
          FactForResource 0 pods, FactStart 0 (Some 0)]\<rparr>))) = factories cluster_wide_factory" .
  from a b c show ?thesis by (intro conjI)
qed

section \<open>Two successive calls of \<open>ensureFactory\<close>\<close>

text \<open>
  Claim C6 says that two successive calls for the same scope key return the identical
  informer factory. On a new factory this fails for a namespace: the first call for
  \<open>default\<close> builds and returns the informer factory 0 of \<open>default\<close>, its warm-up builds
  the informer factory 1 of all namespaces, and the second call is remapped to that one.
\<close>

theorem ensureFactory_twice_differs:
  "ensureFactory (example_env allow) 7 ''default'' NewFactory =
     Some (Return (Some 0) after_first_ensure) \<and>
   ensureFactory (example_env allow) 7 ''default'' after_first_ensure =
     Some (Return (Some 1) after_first_ensure)"
proof
  show "ensureFactory (example_env allow) 7 ''default'' NewFactory =
     Some (Return (Some 0) after_first_ensure)"
    by (rule ensureFactory_fresh_default)
  have k: "factories after_first_ensure allNamespaces = Some 1"
    by (simp add: after_first_ensure_def allNamespaces_def)
  have n: "(7::nat) = Suc 6" by simp
  have "ensureFactory (example_env allow) (Suc 6) ''default'' after_first_ensure =
      Some (Return (factories after_first_ensure allNamespaces) after_first_ensure)"
    using after_first_ensure_cluster_wide by (rule ensureFactory_cluster_wide)
  then show "ensureFactory (example_env allow) 7 ''default'' after_first_ensure =
     Some (Return (Some 1) after_first_ensure)"
    unfolding k n .
qed

text \<open>
  Claim C6 as amended: when a call of \<open>ensureFactory\<close> has returned, a second call for the
  same key, with no \<open>Terminate\<close> in between, finds the key, remapped to the all-namespaces
  key if the factory is cluster-wide by then, in the map: it returns that entry and
  leaves the state, and with it the trace of constructions and warm-up calls, as it is.
  The entry is the one the first call returned whenever the factory was cluster-wide
  before the first call or the key is the all-namespaces key.
\<close>

theorem ensureFactory_second_call:
  assumes run: "ensureFactory E n ns f = Some (Return ref f1)"
  shows "ensureFactory E (Suc m) ns f1 =
           Some (Return (factories f1 (if isClusterWide f1 then allNamespaces else ns)) f1) \<and>
         factories f1 (if isClusterWide f1 then allNamespaces else ns) \<noteq> None \<and>
         (isClusterWide f \<or> ns = allNamespaces \<longrightarrow>
            ensureFactory E (Suc m) ns f1 = Some (Return ref f1))"
proof -
  from ensureFactory_Return_key [OF run]
  have ref: "ref = factories f1 (if isClusterWide f then allNamespaces else ns)"
    and some: "ref \<noteq> None" by blast+
  have hit: "factories f1 (if isClusterWide f1 then allNamespaces else ns) \<noteq> None"
  proof (cases "isClusterWide f1")
    case True
    then show ?thesis by (simp add: isClusterWide_def)
  next
    case False
    with ensureFactory_grows [OF run] have "\<not> isClusterWide f"
      using grows_cluster_wide by fastforce
    with False ref some show ?thesis by simp
  qed
  then have again: "ensureFactory E (Suc m) ns f1 =
      Some (Return (factories f1 (if isClusterWide f1 then allNamespaces else ns)) f1)"
    by auto
  have same: "ensureFactory E (Suc m) ns f1 = Some (Return ref f1)"
    if c: "isClusterWide f \<or> ns = allNamespaces"
  proof -
    from c have "factories f ns = None \<or> isClusterWide f"
      by (auto simp: isClusterWide_def)
    with run have cw1: "isClusterWide f1" by (rule ensureFactory_Return_cluster_wide)
    from c ref have "ref = factories f1 allNamespaces" by auto
    with ensureFactory_cluster_wide [OF cw1] show ?thesis by simp
  qed
  from again hit same show ?thesis by blast
qed

theorem ensureFactory_second_call_witness:
  "ensureFactory (example_env allow) (Suc 0) ''default'' after_first_ensure =
     Some (Return (Some 1) after_first_ensure) \<and>
   ensureFactory (example_env allow) (Suc 0) ''kube-system'' cluster_wide_factory =
     Some (Return (Some 0) cluster_wide_factory)"
proof -
  have k: "factories after_first_ensure
      (if isClusterWide after_first_ensure then allNamespaces else ''default'') = Some 1"
    unfolding if_P [OF after_first_ensure_cluster_wide]
    by (simp add: after_first_ensure_def allNamespaces_def)
  from ensureFactory_second_call [OF ensureFactory_fresh_default, of 0, THEN conjunct1]
  have a: "ensureFactory (example_env allow) (Suc 0) ''default'' after_first_ensure =
     Some (Return (Some 1) after_first_ensure)"
    unfolding k .
  have cw: "isClusterWide cluster_wide_factory"
    by (simp add: isClusterWide_def cluster_wide_factory_def)
  have k0: "factories cluster_wide_factory allNamespaces = Some 0"
    by (simp add: cluster_wide_factory_def)
  have first: "ensureFactory (example_env allow) (Suc 0) ''kube-system'' cluster_wide_factory =
      Some (Return (Some 0) cluster_wide_factory)"
    using ensureFactory_cluster_wide [OF cw, of "example_env allow" 0 "''kube-system''"]
    unfolding k0 .
  from ensureFactory_second_call [OF first, of 0] cw
  have b: "ensureFactory (example_env allow) (Suc 0) ''kube-system'' cluster_wide_factory =
     Some (Return (Some 0) cluster_wide_factory)"
    by blast
  from a b show ?thesis by (rule conjI)
qed

section \<open>The warm-up makes the factory cluster-wide\<close>

text \<open>
  The map of informer factories of a factory is empty or holds the all-namespaces key:
  this is so for a new factory, and every operation that returns keeps it so.
\<close>

lemma NewFactory_empty: "factories NewFactory = Map.empty \<and> \<not> isClusterWide NewFactory"
  by (simp add: NewFactory_def isClusterWide_def)

lemma ensureFactory_keeps_scopes:
  assumes "factories f = Map.empty \<or> isClusterWide f"
    and "ensureFactory E n ns f = Some (Return ref f1)"
  shows "isClusterWide f1"
proof -
  from assms(1) have "factories f ns = None \<or> isClusterWide f" by auto
  with assms(2) show ?thesis by (rule ensureFactory_Return_cluster_wide)
qed

lemma ForResource_keeps_scopes:
  assumes inv: "factories f = Map.empty \<or> isClusterWide f"
    and run: "ForResource E n ns gvr f = Some (Return x f')"
  shows "isClusterWide f'"
proof -
  from ForResource_Return_factories [OF run] obtain m ref f1 where
    e: "ensureFactory E m ns f = Some (Return ref f1)" and s: "factories f' = factories f1"
    by blast
  from inv e have "isClusterWide f1" by (rule ensureFactory_keeps_scopes)
  with s show ?thesis by (rule same_factories_cluster_wide)
qed

lemma SetActive_keeps_scopes:
  assumes inv: "factories f = Map.empty \<or> isClusterWide f"
    and run: "SetActive E n ns f = Some (Return u f')"
  shows "isClusterWide f'"
proof (cases "isClusterWide f")
  case True
  with run show ?thesis by (auto simp: SetActive_def isClusterWide_def)
next
  case False
  with run have "and_then (ensureFactory E n ns f) (\<lambda>_ f. Some (Return () (f\<lparr>activeNS := ns\<rparr>))) =
      Some (Return u f')"
    by (simp add: SetActive_def)
  from and_then_Return [OF this] obtain ref f1 where
    e: "ensureFactory E n ns f = Some (Return ref f1)" and s: "f' = f1\<lparr>activeNS := ns\<rparr>"
    by auto
  from inv e have "isClusterWide f1" by (rule ensureFactory_keeps_scopes)
  with s show ?thesis by (simp add: isClusterWide_def)
qed

lemma List_keeps_scopes:
  assumes inv: "factories f = Map.empty \<or> isClusterWide f"
    and run: "List E n gvr ns sel f = Some (Return x f')"
  shows "factories f' = Map.empty \<or> isClusterWide f'"
proof (cases "conn_CanI E ns gvr [''list''] = (True, None)")
  case False
  with run inv show ?thesis
    by (cases "conn_CanI E ns gvr [''list'']") (auto simp: List_def split: if_splits)
next
  case True
  with run obtain i f1 where r: "ForResource E n ns gvr f = Some (Return i f1)"
    and s: "factories f' = factories f1"
    by (auto simp: List_def store_List_def dest!: and_then_Return
        split: option.splits if_splits)
  from inv r have "isClusterWide f1" by (rule ForResource_keeps_scopes)
  with s show ?thesis using same_factories_cluster_wide by blast
qed

lemma Get_keeps_scopes:
  assumes inv: "factories f = Map.empty \<or> isClusterWide f"
    and run: "Get E n gvr path sel f = Some (Return x f')"
  shows "factories f' = Map.empty \<or> isClusterWide f'"
proof -
  obtain ns nm where p: "namespaced path = (ns, nm)" by (cases "namespaced path")
  show ?thesis
  proof (cases "conn_CanI E ns gvr [''get''] = (True, None)")
    case False
    with run inv p show ?thesis
      by (cases "conn_CanI E ns gvr [''get'']") (auto simp: Get_def split: if_splits)
  next
    case True
    with run p obtain i f1 where r: "ForResource E n ns gvr f = Some (Return i f1)"
      and s: "factories f' = factories f1"
      by (auto simp: Get_def store_Get_def dest!: and_then_Return
          split: option.splits if_splits)
    from inv r have "isClusterWide f1" by (rule ForResource_keeps_scopes)
    with s show ?thesis using same_factories_cluster_wide by blast
  qed
qed

lemma Terminate_keeps_scopes:
  assumes "Terminate f = Return u f'"
  shows "factories f' = Map.empty"
  using assms
  by (auto simp: Terminate_def close_def DeleteAll_def split: option.splits if_splits)

lemma forwarders_keep_scopes:
  "factories (RegisterForwarder pf f) = factories f"
  "factories (DeleteForwarder p f) = factories f"
  by (simp_all add: RegisterForwarder_def DeleteForwarder_def Stop_def delete_forwarders_def
      split: option.splits)

lemma preload_cluster_wide_example:
  "preload (example_env allow) 3 ''default'' cluster_wide_factory =
     Some (Return ()
       (cluster_wide_factory\<lparr>trace := NewInformerFactory 0 allNamespaces # warm 0 pods @
          warm 0 crds @ warm 0 clusterroles @ warm 0 roles\<rparr>))"
  by (simp add: eval_nat_numeral toGVR_warm_up isClusterWide_def allNamespaces_def
      clusterScope_def example_env_def NewFactory_def cluster_wide_factory_def warm_def Let_def)

lemma warm_up_starts_in:
  "ensureFactory (example_env allow) (Suc n) ''default'' NewFactory =
     and_then (preload (example_env allow) n ''default'' during_first_warm_up)
       (\<lambda>_ f'. Some (Return (factories f' ''default'') f'))"
proof -
  have k: "''default'' = (if isClusterWide NewFactory then allNamespaces else ''default'')"
    by (simp add: NewFactory_def isClusterWide_def)
  have g: "NewFactory\<lparr>factories := (factories NewFactory)(''default'' \<mapsto> fresh (trace NewFactory)),
      trace := trace NewFactory @ [NewInformerFactory (fresh (trace NewFactory)) ''default'']\<rparr> =
      during_first_warm_up"
    by (simp add: NewFactory_def during_first_warm_up_def fresh_def)
  have "ensureFactory (example_env allow) (Suc n) ''default'' NewFactory =
     and_then (preload (example_env allow) n ''default''
        (NewFactory\<lparr>factories := (factories NewFactory)(''default'' \<mapsto> fresh (trace NewFactory)),
           trace := trace NewFactory @
             [NewInformerFactory (fresh (trace NewFactory)) ''default'']\<rparr>))
       (\<lambda>_ f'. Some (Return (factories f' ''default'') f'))"
    using k by (rule ensureFactory_miss) (simp_all add: NewFactory_def example_env_def)
  then show ?thesis unfolding g .
qed

text \<open>
  Claim C10 says that ensuring the informer factory of any key on a factory that is not
  yet cluster-wide creates the all-namespaces one. This fails when the map holds the key
  already: the call returns the entry and builds nothing. Such a state is the one in
  which the warm-up of the first call for \<open>default\<close> on a new factory starts (lemma
  \<open>warm_up_starts_in\<close>), and the first thing the warm-up does there is to ensure
  \<open>default\<close> again.
\<close>

theorem ensureFactory_hit_stays_namespaced:
  "\<not> isClusterWide during_first_warm_up \<and>
   ensureFactory (example_env allow) 7 ''default'' during_first_warm_up =
     Some (Return (Some 0) during_first_warm_up)"
proof
  show "\<not> isClusterWide during_first_warm_up"
    by (simp add: isClusterWide_def during_first_warm_up_def NewFactory_def allNamespaces_def)
  have n: "(7::nat) = Suc 6" by simp
  have "ensureFactory (example_env allow) (Suc 6) ''default'' during_first_warm_up =
     Some (Return (Some 0) during_first_warm_up)"
    by (subst ensureFactory.simps(2))
      (simp add: isClusterWide_def during_first_warm_up_def NewFactory_def allNamespaces_def
        Let_def del: preload.simps)
  then show "ensureFactory (example_env allow) 7 ''default'' during_first_warm_up =
     Some (Return (Some 0) during_first_warm_up)"
    unfolding n .
qed

text \<open>
  Claim C10 as amended: ensuring the informer factory of a scope key that the map of a
  factory that is not yet cluster-wide does not hold creates the all-namespaces one as a
  side effect, because the warm-up, whenever it returns, leaves an all-namespaces entry
  behind. So a call of \<open>ensureFactory\<close> that returns, for a key that the map did not
  hold, leaves the factory cluster-wide (the same if it was cluster-wide before), and from
  then on \<open>ensureFactory\<close> for any key returns the all-namespaces entry and changes
  nothing. The map of a new factory holds no key and is not cluster-wide. The call does
  return, with a reference that is not nil, when the dial handle never fails and the
  call depth is at least 7.
\<close>

theorem ensureFactory_makes_cluster_wide:
  "(preload E n ns f = Some (Return u f') \<longrightarrow> isClusterWide f') \<and>
   ((factories f ns = None \<or> isClusterWide f) \<and>
    ensureFactory E n ns f = Some (Return ref f1) \<longrightarrow>
      isClusterWide f1 \<and>
      (\<forall>ns' m. ensureFactory E (Suc m) ns' f1 = Some (Return (factories f1 allNamespaces) f1))) \<and>
   ((\<forall>tr. conn_DynDialOrDie E tr) \<and> 7 \<le> n \<longrightarrow>
      (\<exists>r g. ensureFactory E n ns f = Some (Return (Some r) g))) \<and>
   factories NewFactory ns = None \<and> \<not> isClusterWide NewFactory"
proof (intro conjI impI)
  assume "preload E n ns f = Some (Return u f')"
  then show "isClusterWide f'" by (rule preload_Return_cluster_wide)
next
  assume a: "(factories f ns = None \<or> isClusterWide f) \<and>
    ensureFactory E n ns f = Some (Return ref f1)"
  then show cw: "isClusterWide f1" using ensureFactory_Return_cluster_wide by blast
  then show "\<forall>ns' m. ensureFactory E (Suc m) ns' f1 =
      Some (Return (factories f1 allNamespaces) f1)"
    using ensureFactory_cluster_wide by blast
next
  assume "(\<forall>tr. conn_DynDialOrDie E tr) \<and> 7 \<le> n"
  then show "\<exists>r g. ensureFactory E n ns f = Some (Return (Some r) g)"
    using ensureFactory_returns by blast
next
  show "factories NewFactory ns = None" using NewFactory_empty by simp
  show "\<not> isClusterWide NewFactory" using NewFactory_empty by blast
qed

theorem ensureFactory_makes_cluster_wide_witness:
  "isClusterWide (cluster_wide_factory\<lparr>trace := NewInformerFactory 0 allNamespaces #
      warm 0 pods @ warm 0 crds @ warm 0 clusterroles @ warm 0 roles\<rparr>) \<and>
   isClusterWide after_first_ensure \<and>
   ensureFactory (example_env allow) (Suc 0) ''kube-system'' after_first_ensure =
     Some (Return (Some 1) after_first_ensure) \<and>
   (\<exists>r g. ensureFactory (example_env allow) 7 ''default'' NewFactory = Some (Return (Some r) g))"
proof -
  note t = ensureFactory_makes_cluster_wide [where E = "example_env allow"]
  have k: "factories after_first_ensure allNamespaces = Some 1"
    by (simp add: after_first_ensure_def allNamespaces_def)
  have miss: "factories NewFactory ''default'' = None \<or> isClusterWide NewFactory"
    by (simp add: NewFactory_def)
  have dial: "(\<forall>tr. conn_DynDialOrDie (example_env allow) tr) \<and> (7::nat) \<le> 7"
    by (simp add: example_env_def)
  from t [THEN conjunct1, rule_format, OF preload_cluster_wide_example]
  have a: "isClusterWide (cluster_wide_factory\<lparr>trace := NewInformerFactory 0 allNamespaces #
      warm 0 pods @ warm 0 crds @ warm 0 clusterroles @ warm 0 roles\<rparr>)" .
  note s = t [THEN conjunct2, THEN conjunct1, rule_format,
      OF conjI [OF miss ensureFactory_fresh_default]]
  from s have b: "isClusterWide after_first_ensure" by (rule conjunct1)
  from s [THEN conjunct2, rule_format, where ns' = "''kube-system''" and m = 0]
  have c: "ensureFactory (example_env allow) (Suc 0) ''kube-system'' after_first_ensure =
     Some (Return (Some 1) after_first_ensure)"
    unfolding k .
  from t [where n = 7 and ns = "''default''" and f = NewFactory,
      THEN conjunct2, THEN conjunct2, THEN conjunct1, rule_format, OF dial]
  have d: "\<exists>r g. ensureFactory (example_env allow) 7 ''default'' NewFactory =
      Some (Return (Some r) g)" .
  from a b c d show ?thesis by (intro conjI)
qed

end
